theory Spec2Isabelle
  imports Complex_Main "HOL-Library.Multiset"
begin

section \<open>Python values, errors and dictionaries\<close>

text \<open>
  The two scripts build and augment a \<^verbatim>\<open>networkx.Graph\<close> with Python's global random
  generator. Exceptions are values of \<open>py_error\<close>; a function that may raise returns
  \<open>py_error + 'a\<close>. Floats are modelled by exact reals: the scripts only copy them,
  compare them and use them as sampling weights.
\<close>

datatype py_error = ZeroDivisionError | NetworkXError | ValueError | KeyError string | IndexError

datatype attr = Str string | Num real | IntV int | Repr "(string \<times> real) list"

type_synonym attrs = "string \<rightharpoonup> attr"

type_synonym pydict = "(string \<times> real) list"

definition bindE :: "'e + 'a \<Rightarrow> ('a \<Rightarrow> 'e + 'b) \<Rightarrow> 'e + 'b" where
  "bindE r f = (case r of Inl e \<Rightarrow> Inl e | Inr x \<Rightarrow> f x)"

definition getitem :: "pydict \<Rightarrow> string \<Rightarrow> py_error + real" where
  \<comment> \<open>\<^verbatim>\<open>d[k]\<close>: KeyError when the key is absent.\<close>
  "getitem d k = (case map_of d k of None \<Rightarrow> Inl (KeyError k) | Some v \<Rightarrow> Inr v)"

section \<open>The random module\<close>

text \<open>
  The generator's state is the sequence of raw numbers it will still deliver: \<open>s i\<close> is
  the number after \<open>i\<close> others. Seeding replaces the state by the sequence \<open>mt a\<close> that
  the generator yields for seed \<open>a\<close>, whatever the state was; \<open>mt\<close> (the Mersenne
  Twister) is a parameter. Every library function takes the state and returns the new
  one.
\<close>

type_synonym rng = "nat \<Rightarrow> nat"

definition next_raw :: "rng \<Rightarrow> nat \<times> rng" where
  "next_raw s = (s 0, (\<lambda>i. s (Suc i)))"

definition random_seed :: "(int \<Rightarrow> rng) \<Rightarrow> int \<Rightarrow> rng \<Rightarrow> rng" where
  "random_seed mt a s = mt a"

definition randbelow :: "nat \<Rightarrow> rng \<Rightarrow> nat \<times> rng" where
  "randbelow n s = (case next_raw s of (r, s1) \<Rightarrow> (r mod n, s1))"

definition random_float :: "rng \<Rightarrow> real \<times> rng" where
  \<comment> \<open>\<^verbatim>\<open>random()\<close>: a multiple of 2 ** -53 in [0, 1).\<close>
  "random_float s = (case next_raw s of (r, s1) \<Rightarrow> (real_of_int (int r mod 2 ^ 53) / 2 ^ 53, s1))"

definition random_uniform :: "real \<Rightarrow> real \<Rightarrow> rng \<Rightarrow> real \<times> rng" where
  "random_uniform a b s = (case random_float s of (u, s1) \<Rightarrow> (a + (b - a) * u, s1))"

definition random_choice :: "'a list \<Rightarrow> rng \<Rightarrow> py_error + ('a \<times> rng)" where
  "random_choice seq s =
     (if seq = [] then Inl IndexError
      else case randbelow (length seq) s of (j, s1) \<Rightarrow> Inr (seq ! j, s1))"

text \<open>
  \<^verbatim>\<open>random.sample\<close> by its pool method: position \<open>j\<close> of the pool is drawn, and the last
  element of the pool takes its place.
\<close>

fun sample_pool :: "'a list \<Rightarrow> nat \<Rightarrow> rng \<Rightarrow> 'a list \<times> rng" where
  "sample_pool pool 0 s = ([], s)"
| "sample_pool pool (Suc k) s =
     (case randbelow (length pool) s of (j, s1) \<Rightarrow>
        (case sample_pool (butlast (pool[j := last pool])) k s1 of (rest, s2) \<Rightarrow>
           (pool ! j # rest, s2)))"

definition random_sample :: "'a list \<Rightarrow> int \<Rightarrow> rng \<Rightarrow> py_error + ('a list \<times> rng)" where
  "random_sample population k s =
     (if \<not> (0 \<le> k \<and> k \<le> int (length population)) then Inl ValueError
      else Inr (sample_pool population (nat k) s))"

fun accumulate_from :: "real \<Rightarrow> real list \<Rightarrow> real list" where
  "accumulate_from acc [] = []"
| "accumulate_from acc (w # ws) = (acc + w) # accumulate_from (acc + w) ws"

definition accumulate :: "real list \<Rightarrow> real list" where
  "accumulate ws = accumulate_from 0 ws"

function bisect_right :: "real list \<Rightarrow> real \<Rightarrow> nat \<Rightarrow> nat \<Rightarrow> nat" where
  "bisect_right a x lo hi =
     (if lo < hi
      then (let mid = (lo + hi) div 2
            in if x < a ! mid then bisect_right a x lo mid
               else bisect_right a x (mid + 1) hi)
      else lo)"
  by pat_completeness auto
termination
  by (relation "measure (\<lambda>(a, x, lo, hi). hi - lo)") auto

declare bisect_right.simps [simp del]

definition random_choices1 :: "'a list \<Rightarrow> real list \<Rightarrow> rng \<Rightarrow> py_error + ('a \<times> rng)" where
  \<comment> \<open>\<^verbatim>\<open>random.choices(population, weights=weights, k=1)[0]\<close>\<close>
  "random_choices1 population weights s =
     (let n = length population; cum_weights = accumulate weights
      in if length cum_weights \<noteq> n then Inl ValueError
         else if cum_weights = [] then Inl IndexError
         else let total = last cum_weights
              in if total \<le> 0 then Inl ValueError
                 else case random_float s of (u, s1) \<Rightarrow>
                   Inr (population ! bisect_right cum_weights (u * total) 0 (n - 1), s1))"

section \<open>The graph\<close>

text \<open>
  A \<^verbatim>\<open>networkx.Graph\<close>: the nodes in insertion order, each with its attribute dictionary,
  the undirected edges in insertion order, each with its attribute dictionary, and the
  graph's own attributes.
\<close>

record 'v graph =
  node_list :: "'v list"
  node_data :: "'v \<Rightarrow> attrs"
  edge_list :: "('v \<times> 'v \<times> attrs) list"
  graph_data :: attrs

definition empty_graph :: "'v graph" where
  "empty_graph = \<lparr>node_list = [], node_data = (\<lambda>v. Map.empty), edge_list = [], graph_data = Map.empty\<rparr>"

definition has_node :: "'v graph \<Rightarrow> 'v \<Rightarrow> bool" where
  "has_node G v = (v \<in> set (node_list G))"

definition add_node :: "'v graph \<Rightarrow> 'v \<Rightarrow> 'v graph" where
  "add_node G v =
     (if has_node G v then G
      else G\<lparr>node_list := node_list G @ [v], node_data := (node_data G)(v := Map.empty)\<rparr>)"

definition joins :: "'v \<Rightarrow> 'v \<Rightarrow> 'v \<times> 'v \<times> attrs \<Rightarrow> bool" where
  "joins u v e = (case e of (a, b, d) \<Rightarrow> (a = u \<and> b = v) \<or> (a = v \<and> b = u))"

definition has_edge :: "'v graph \<Rightarrow> 'v \<Rightarrow> 'v \<Rightarrow> bool" where
  "has_edge G u v = list_ex (joins u v) (edge_list G)"

definition add_edge :: "'v graph \<Rightarrow> 'v \<Rightarrow> 'v \<Rightarrow> attrs \<Rightarrow> 'v graph" where
  \<comment> \<open>\<^verbatim>\<open>G.add_edge(u, v, **d)\<close>: missing end points become nodes; an edge that exists keeps
      its place and has its attributes updated.\<close>
  "add_edge G u v d =
     (let G1 = add_node (add_node G u) v
      in if has_edge G1 u v
         then G1\<lparr>edge_list :=
                   map (\<lambda>e. if joins u v e then (fst e, fst (snd e), snd (snd e) ++ d) else e)
                     (edge_list G1)\<rparr>
         else G1\<lparr>edge_list := edge_list G1 @ [(u, v, d)]\<rparr>)"

definition number_of_edges :: "'v graph \<Rightarrow> nat" where
  "number_of_edges G = length (edge_list G)"

definition precedes :: "'v list \<Rightarrow> 'v \<Rightarrow> 'v \<Rightarrow> bool" where
  "precedes xs u v = (v \<notin> set (takeWhile (\<lambda>x. x \<noteq> u) xs))"

definition edges :: "'v graph \<Rightarrow> ('v \<times> 'v) list" where
  \<comment> \<open>\<^verbatim>\<open>G.edges()\<close> reports each edge once, from the end point that comes first among the nodes.\<close>
  "edges G =
     map (\<lambda>e. case e of (a, b, d) \<Rightarrow> if precedes (node_list G) a b then (a, b) else (b, a))
       (edge_list G)"

definition degree :: "'v graph \<Rightarrow> 'v \<Rightarrow> nat" where
  "degree G v =
     length (filter (\<lambda>e. fst e = v) (edge_list G)) +
     length (filter (\<lambda>e. fst (snd e) = v) (edge_list G))"

definition set_node_attr :: "'v graph \<Rightarrow> 'v \<Rightarrow> string \<Rightarrow> attr \<Rightarrow> 'v graph" where
  \<comment> \<open>\<^verbatim>\<open>G.nodes[v][k] = x\<close>\<close>
  "set_node_attr G v k x = G\<lparr>node_data := (node_data G)(v := (node_data G v)(k \<mapsto> x))\<rparr>"

text \<open>The well-formedness of a graph value: what a \<^verbatim>\<open>networkx.Graph\<close> guarantees by
  construction, and what the claims are about.\<close>

definition ends :: "'v \<times> 'v \<times> attrs \<Rightarrow> 'v set" where
  "ends e = {fst e, fst (snd e)}"

definition no_duplicate_edges :: "'v graph \<Rightarrow> bool" where
  "no_duplicate_edges G = distinct (map ends (edge_list G))"

definition no_self_loops :: "'v graph \<Rightarrow> bool" where
  "no_self_loops G = list_all (\<lambda>e. fst e \<noteq> fst (snd e)) (edge_list G)"

definition edges_closed :: "'v graph \<Rightarrow> bool" where
  "edges_closed G = list_all (\<lambda>e. has_node G (fst e) \<and> has_node G (fst (snd e))) (edge_list G)"

definition wf_graph :: "'v graph \<Rightarrow> bool" where
  "wf_graph G = (distinct (node_list G) \<and> edges_closed G \<and> no_duplicate_edges G)"

section \<open>The scale-free base graph\<close>

text \<open>
  \<^verbatim>\<open>networkx.barabasi_albert_graph(n, m)\<close>, called without a seed, so it draws from the
  global generator: a star on \<open>m + 1\<close> nodes, then every further node is joined to \<open>m\<close>
  different existing nodes, drawn from the list that repeats each node once per edge end.
  \<open>random_subset\<close> stands for the library's loop that draws from that list until it holds
  \<open>m\<close> different nodes: a drawn node leaves the pool, so every draw is a new node.
\<close>

definition star_graph :: "nat \<Rightarrow> nat graph" where
  "star_graph m =
     foldl (\<lambda>G i. add_edge G 0 i Map.empty) (foldl add_node empty_graph [0..<Suc m]) [1..<Suc m]"

definition repeated_nodes :: "'v graph \<Rightarrow> 'v list" where
  "repeated_nodes G = concat (map (\<lambda>v. replicate (degree G v) v) (node_list G))"

fun random_subset :: "'a list \<Rightarrow> nat \<Rightarrow> rng \<Rightarrow> 'a list \<times> rng" where
  "random_subset seq 0 s = ([], s)"
| "random_subset seq (Suc k) s =
     (if seq = [] then ([], s)
      else case randbelow (length seq) s of (j, s1) \<Rightarrow>
        (case random_subset (filter (\<lambda>y. y \<noteq> seq ! j) seq) k s1 of (rest, s2) \<Rightarrow>
           (seq ! j # rest, s2)))"

fun ba_grow :: "nat \<Rightarrow> nat \<Rightarrow> nat \<Rightarrow> nat graph \<Rightarrow> nat list \<Rightarrow> rng \<Rightarrow> nat graph \<times> rng" where
  "ba_grow m 0 source G repeated s = (G, s)"
| "ba_grow m (Suc todo) source G repeated s =
     (case random_subset repeated m s of (targets, s1) \<Rightarrow>
        ba_grow m todo (Suc source)
          (foldl (\<lambda>H t. add_edge H source t Map.empty) G targets)
          (repeated @ targets @ replicate m source) s1)"

definition barabasi_albert_graph :: "int \<Rightarrow> int \<Rightarrow> rng \<Rightarrow> py_error + (nat graph \<times> rng)" where
  "barabasi_albert_graph n m s =
     (if m < 1 \<or> m \<ge> n then Inl NetworkXError
      else let G = star_graph (nat m)
           in Inr (ba_grow (nat m) (nat n - length (node_list G)) (length (node_list G)) G
                     (repeated_nodes G) s))"

section \<open>generate\_synthetic\_network\<close>

definition default_initial_belief :: pydict where
  "default_initial_belief = [(''Fraud'', 1 / 3), (''Accomplice'', 1 / 3), (''Honest'', 1 / 3)]"

definition default_state_distribution :: pydict where
  "default_state_distribution = [(''Fraud'', 0.1), (''Accomplice'', 0.2), (''Honest'', 0.7)]"

definition categories :: "string list" where
  "categories = [''Fraud'', ''Accomplice'', ''Honest'']"

text \<open>
  Step 2, the top-up loop. The loop has no bound of its own, so the model counts its
  iterations down from \<open>fuel\<close>: \<open>None\<close> is a run that is still looping when the fuel is
  spent.
\<close>

fun top_up ::
  "nat \<Rightarrow> int \<Rightarrow> nat list \<Rightarrow> nat graph \<Rightarrow> (nat \<times> nat) set \<Rightarrow> rng
     \<Rightarrow> (py_error + (nat graph \<times> rng)) option" where
  "top_up 0 target_edges nodes_list G existing_edges s =
     (if \<not> int (number_of_edges G) < target_edges then Some (Inr (G, s)) else None)"
| "top_up (Suc fuel) target_edges nodes_list G existing_edges s =
     (if \<not> int (number_of_edges G) < target_edges then Some (Inr (G, s))
      else case random_sample nodes_list 2 s of
             Inl e \<Rightarrow> Some (Inl e)
           | Inr (pair, s1) \<Rightarrow>
               (case pair of
                  [node1, node2] \<Rightarrow>
                    if (node1, node2) \<notin> existing_edges \<and> (node2, node1) \<notin> existing_edges
                    then (case random_uniform 0.1 1.0 s1 of (w, s2) \<Rightarrow>
                            top_up fuel target_edges nodes_list
                              (add_edge G node1 node2 [''weight'' \<mapsto> Num w])
                              (insert (node1, node2) existing_edges) s2)
                    else top_up fuel target_edges nodes_list G existing_edges s1
                | _ \<Rightarrow> Some (Inl ValueError)))"

text \<open>Step 3, the body of the loop over the nodes, and the loop.\<close>

fun incr_count :: "(string \<times> int) list \<Rightarrow> string \<Rightarrow> py_error + (string \<times> int) list" where
  "incr_count [] k = Inl (KeyError k)"
| "incr_count ((k', n) # rest) k =
     (if k' = k then Inr ((k', n + 1) # rest)
      else bindE (incr_count rest k) (\<lambda>r. Inr ((k', n) # r)))"

definition assign_node ::
  "pydict \<Rightarrow> pydict \<Rightarrow> nat \<Rightarrow> nat graph \<times> (string \<times> int) list \<times> rng
     \<Rightarrow> py_error + (nat graph \<times> (string \<times> int) list \<times> rng)" where
  "assign_node state_distribution initial_belief node st =
     (case st of (G, state_counts, s) \<Rightarrow>
      bindE (getitem state_distribution ''Fraud'') (\<lambda>w_fraud.
      bindE (getitem state_distribution ''Accomplice'') (\<lambda>w_accomplice.
      bindE (getitem state_distribution ''Honest'') (\<lambda>w_honest.
      bindE (random_choices1 categories [w_fraud, w_accomplice, w_honest] s) (\<lambda>(true_state, s1).
      let G1 = set_node_attr G node ''true_state'' (Str true_state) in
      bindE (getitem initial_belief ''Fraud'') (\<lambda>b_fraud.
      let G2 = set_node_attr G1 node ''belief_fraud'' (Num b_fraud) in
      bindE (getitem initial_belief ''Accomplice'') (\<lambda>b_accomplice.
      let G3 = set_node_attr G2 node ''belief_accomplice'' (Num b_accomplice) in
      bindE (getitem initial_belief ''Honest'') (\<lambda>b_honest.
      let G4 = set_node_attr G3 node ''belief_honest'' (Num b_honest) in
      bindE (random_choice categories s1) (\<lambda>(state, s2).
      let G5 = set_node_attr G4 node ''state'' (Str state) in
      bindE (incr_count state_counts true_state) (\<lambda>state_counts'.
      Inr (G5, state_counts', s2)))))))))))"

fun assign_roles ::
  "pydict \<Rightarrow> pydict \<Rightarrow> nat list \<Rightarrow> nat graph \<times> (string \<times> int) list \<times> rng
     \<Rightarrow> py_error + (nat graph \<times> (string \<times> int) list \<times> rng)" where
  "assign_roles state_distribution initial_belief [] st = Inr st"
| "assign_roles state_distribution initial_belief (node # rest) st =
     bindE (assign_node state_distribution initial_belief node st)
       (assign_roles state_distribution initial_belief rest)"

text \<open>Steps 4 and 6 print; what they compute before printing can raise.\<close>

definition report :: "int \<Rightarrow> nat graph \<Rightarrow> (string \<times> int) list \<Rightarrow> py_error + real list" where
  "report num_nodes G state_counts =
     (let total_nodes = sum_list (map snd state_counts)
      in if total_nodes = 0 then Inl ZeroDivisionError
         else if num_nodes = 0 then Inl ZeroDivisionError
         else Inr (map (\<lambda>c. real_of_int (snd c) / real_of_int total_nodes) state_counts @
                   [real (sum_list (map (degree G) (node_list G))) / real_of_int num_nodes]))"

definition add_metadata :: "int \<Rightarrow> int \<Rightarrow> pydict \<Rightarrow> pydict \<Rightarrow> nat graph \<Rightarrow> nat graph" where
  \<comment> \<open>Step 5; \<open>Repr d\<close> is the string \<^verbatim>\<open>str(d)\<close>.\<close>
  "add_metadata num_nodes target_edges initial_belief state_distribution G =
     G\<lparr>graph_data := (graph_data G)
          (''num_nodes'' \<mapsto> IntV num_nodes, ''target_edges'' \<mapsto> IntV target_edges,
           ''initial_belief'' \<mapsto> Repr initial_belief,
           ''state_distribution'' \<mapsto> Repr state_distribution)\<rparr>"

definition label_and_save ::
  "int \<Rightarrow> int \<Rightarrow> pydict \<Rightarrow> pydict \<Rightarrow> nat graph \<Rightarrow> rng \<Rightarrow> py_error + (nat graph \<times> rng)" where
  "label_and_save num_nodes target_edges initial_belief state_distribution G s =
     bindE (assign_roles state_distribution initial_belief (node_list G)
              (G, [(''Fraud'', 0), (''Accomplice'', 0), (''Honest'', 0)], s))
       (\<lambda>(G1, state_counts, s1).
          bindE (report num_nodes G1 state_counts)
            (\<lambda>printed. Inr (add_metadata num_nodes target_edges initial_belief state_distribution G1, s1)))"

definition generate_synthetic_network ::
  "(int \<Rightarrow> rng) \<Rightarrow> nat \<Rightarrow> int \<Rightarrow> int \<Rightarrow> pydict option \<Rightarrow> pydict option \<Rightarrow> rng
     \<Rightarrow> (py_error + (nat graph \<times> rng)) option" where
  \<comment> \<open>The result is the graph written to \<^verbatim>\<open>output_file\<close>, with the generator's state.\<close>
  "generate_synthetic_network mt fuel num_nodes target_edges initial_belief state_distribution s0 =
     (let initial_belief = (case initial_belief of None \<Rightarrow> default_initial_belief | Some d \<Rightarrow> d);
          state_distribution =
            (case state_distribution of None \<Rightarrow> default_state_distribution | Some d \<Rightarrow> d);
          s1 = random_seed mt 42 s0
      in if num_nodes = 0 then Some (Inl ZeroDivisionError)
         else let m = max 1 (target_edges div num_nodes)
              in case barabasi_albert_graph num_nodes m s1 of
                   Inl e \<Rightarrow> Some (Inl e)
                 | Inr (G, s2) \<Rightarrow>
                     (case top_up fuel target_edges (node_list G) G (set (edges G)) s2 of
                        None \<Rightarrow> None
                      | Some (Inl e) \<Rightarrow> Some (Inl e)
                      | Some (Inr (G1, s3)) \<Rightarrow>
                          Some (label_and_save num_nodes target_edges initial_belief
                                  state_distribution G1 s3)))"

section \<open>add\_fraud\_accomplice\_edges\<close>

definition true_state_is :: "'v graph \<Rightarrow> string \<Rightarrow> 'v \<Rightarrow> bool" where
  \<comment> \<open>\<^verbatim>\<open>G.nodes[n].get("true_state") == label\<close>\<close>
  "true_state_is G label n = (node_data G n ''true_state'' = Some (Str label))"

definition link_accomplices :: "'v graph \<Rightarrow> 'v \<Rightarrow> 'v list \<Rightarrow> 'v graph" where
  "link_accomplices G node accomplice_neighbors =
     foldl (\<lambda>H accomplice. if \<not> has_edge H node accomplice then add_edge H node accomplice Map.empty else H)
       G accomplice_neighbors"

fun augment_nodes :: "int \<Rightarrow> 'v list \<Rightarrow> 'v graph \<Rightarrow> rng \<Rightarrow> py_error + ('v graph \<times> rng)" where
  "augment_nodes max_accomplice_edges [] G s = Inr (G, s)"
| "augment_nodes max_accomplice_edges (node # rest) G s =
     (if true_state_is G ''Fraud'' node
      then (let accomplices = filter (true_state_is G ''Accomplice'') (node_list G)
            in bindE (random_sample accomplices
                        (min max_accomplice_edges (int (length accomplices))) s)
                 (\<lambda>(accomplice_neighbors, s1).
                    augment_nodes max_accomplice_edges rest
                      (link_accomplices G node accomplice_neighbors) s1))
      else augment_nodes max_accomplice_edges rest G s)"

definition add_fraud_accomplice_edges :: "'v graph \<Rightarrow> int \<Rightarrow> rng \<Rightarrow> py_error + ('v graph \<times> rng)" where
  "add_fraud_accomplice_edges G max_accomplice_edges s =
     augment_nodes max_accomplice_edges (node_list G) G s"

text \<open>One step of the inner loop; and, for a node, the number of accomplices it is linked
  to, and of those it was not linked to before a pass.\<close>

definition link_step :: "'v \<Rightarrow> 'v graph \<Rightarrow> 'v \<Rightarrow> 'v graph" where
  "link_step node H accomplice = (if \<not> has_edge H node accomplice then add_edge H node accomplice Map.empty else H)"

definition accomplice_links :: "'v graph \<Rightarrow> 'v \<Rightarrow> nat" where
  "accomplice_links G u =
     length (filter (\<lambda>a. true_state_is G ''Accomplice'' a \<and> has_edge G u a) (node_list G))"

definition new_accomplice_links :: "'v graph \<Rightarrow> 'v graph \<Rightarrow> 'v \<Rightarrow> nat" where
  "new_accomplice_links G G' u =
     length (filter (\<lambda>a. true_state_is G' ''Accomplice'' a \<and> has_edge G' u a \<and> \<not> has_edge G u a)
               (node_list G'))"

section \<open>What the claims speak of\<close>

text \<open>The setting a run works with: the caller's dictionary, or the default.\<close>

definition configured :: "pydict \<Rightarrow> pydict option \<Rightarrow> pydict" where
  "configured fallback given = (case given of None \<Rightarrow> fallback | Some d \<Rightarrow> d)"

text \<open>A dictionary has the three categories as keys.\<close>

definition has_categories :: "pydict \<Rightarrow> bool" where
  "has_categories d = list_all (\<lambda>k. map_of d k \<noteq> None) categories"


text \<open>The sum of a node's three belief fields, when it has them.\<close>

definition belief_sum :: "nat graph \<Rightarrow> nat \<Rightarrow> real option" where
  "belief_sum G v =
     (case (node_data G v ''belief_fraud'', node_data G v ''belief_accomplice'',
            node_data G v ''belief_honest'') of
        (Some (Num a), Some (Num b), Some (Num c)) \<Rightarrow> Some (a + b + c)
      | _ \<Rightarrow> None)"

text \<open>A run returned a graph: it neither raised nor was still looping when the fuel ended.\<close>

definition returns_graph :: "(py_error + 'a) option \<Rightarrow> bool" where
  "returns_graph r = (case r of Some (Inr x) \<Rightarrow> True | _ \<Rightarrow> False)"

text \<open>A node carries the five labelling attributes, the beliefs as configured.\<close>

definition labelled :: "pydict \<Rightarrow> nat graph \<Rightarrow> nat \<Rightarrow> bool" where
  "labelled ib G v =
     (node_data G v ''true_state'' \<in> Some ` Str ` set categories \<and>
      node_data G v ''state'' \<in> Some ` Str ` set categories \<and>
      (\<exists>bf ba bh. map_of ib ''Fraud'' = Some bf \<and> map_of ib ''Accomplice'' = Some ba \<and>
         map_of ib ''Honest'' = Some bh \<and>
         node_data G v ''belief_fraud'' = Some (Num bf) \<and>
         node_data G v ''belief_accomplice'' = Some (Num ba) \<and>
         node_data G v ''belief_honest'' = Some (Num bh)))"

text \<open>The invariant of the generated graph: the nodes are \<open>0, ..., n - 1\<close>, every edge joins
  two different nodes of the graph, and no two edges join the same pair.\<close>

definition ba_inv :: "nat \<Rightarrow> nat graph \<Rightarrow> bool" where
  "ba_inv n G = (node_list G = [0..<n] \<and> edges_closed G \<and> no_duplicate_edges G \<and> no_self_loops G)"

section \<open>Concrete inputs\<close>

text \<open>Generators that deliver a fixed sequence of raw numbers, and two small labelled
  graphs: in \<open>labelled_trio\<close> node 0 is a Fraud node and nodes 1 and 2 are Accomplice nodes,
  without edges; in \<open>linked_pair\<close> the Fraud node 0 and the only Accomplice node 1 are joined
  by an edge.\<close>

definition zero_tape :: rng where
  "zero_tape i = 0"

definition ramp_tape :: rng where
  "ramp_tape i = i"

definition zero_mt :: "int \<Rightarrow> rng" where
  "zero_mt a = zero_tape"

fun tape_of :: "nat list \<Rightarrow> rng" where
  "tape_of [] i = 0"
| "tape_of (x # xs) 0 = x"
| "tape_of (x # xs) (Suc i) = tape_of xs i"

definition demo_mt :: "int \<Rightarrow> rng" where
  "demo_mt a = tape_of [0, 1, 1, 7]"

definition labelled_trio :: "nat graph" where
  "labelled_trio =
     set_node_attr (set_node_attr (set_node_attr
       (add_node (add_node (add_node empty_graph 0) 1) 2)
       0 ''true_state'' (Str ''Fraud'')) 1 ''true_state'' (Str ''Accomplice''))
       2 ''true_state'' (Str ''Accomplice'')"

definition linked_pair :: "nat graph" where
  "linked_pair =
     add_edge (set_node_attr (set_node_attr (add_node (add_node empty_graph 0) 1)
       0 ''true_state'' (Str ''Fraud'')) 1 ''true_state'' (Str ''Accomplice'')) 0 1 Map.empty"

section \<open>Graph operations keep the graph well formed\<close>

lemma joins_ends: "joins u v e = (ends e = {u, v})"
  by (cases e) (auto simp: joins_def ends_def doubleton_eq_iff)

lemma has_edge_ends: "has_edge G u v = ({u, v} \<in> set (map ends (edge_list G)))"
  by (auto simp: has_edge_def list_ex_iff joins_ends)

lemma has_edge_sym: "has_edge G u v = has_edge G v u"
  by (simp add: has_edge_ends insert_commute)

lemma edge_list_add_node [simp]: "edge_list (add_node G v) = edge_list G"
  by (simp add: add_node_def)

lemma set_node_list_add_node [simp]: "set (node_list (add_node G v)) = insert v (set (node_list G))"
  by (auto simp: add_node_def has_node_def)

lemma distinct_add_node [simp]: "distinct (node_list (add_node G v)) = distinct (node_list G)"
  by (auto simp: add_node_def has_node_def)

lemma add_node_present: "v \<in> set (node_list G) \<Longrightarrow> add_node G v = G"
  by (simp add: add_node_def has_node_def)

lemma has_edge_add_node [simp]: "has_edge (add_node G w) u v = has_edge G u v"
  by (simp add: has_edge_def)

lemma ends_update: "ends (fst e, fst (snd e), d) = ends e"
  by (simp add: ends_def)

lemma map_ends_add_edge:
  "map ends (edge_list (add_edge G u v d)) =
     (if has_edge G u v then map ends (edge_list G) else map ends (edge_list G) @ [{u, v}])"
  by (auto simp: add_edge_def Let_def ends_def intro!: map_cong)

lemma length_edge_list_add_edge:
  "length (edge_list (add_edge G u v d)) = (if has_edge G u v then length (edge_list G) else Suc (length (edge_list G)))"
  by (simp add: add_edge_def Let_def)

lemma set_node_list_add_edge [simp]:
  "set (node_list (add_edge G u v d)) = insert u (insert v (set (node_list G)))"
  by (auto simp: add_edge_def Let_def)

lemma distinct_node_list_add_edge [simp]:
  "distinct (node_list (add_edge G u v d)) = distinct (node_list G)"
  by (simp add: add_edge_def Let_def)

lemma add_edge_present_node_list:
  "u \<in> set (node_list G) \<Longrightarrow> v \<in> set (node_list G) \<Longrightarrow> node_list (add_edge G u v d) = node_list G"
  by (simp add: add_edge_def Let_def add_node_present)

lemma add_edge_present_node_data:
  "u \<in> set (node_list G) \<Longrightarrow> v \<in> set (node_list G) \<Longrightarrow> node_data (add_edge G u v d) = node_data G"
  by (simp add: add_edge_def Let_def add_node_present)

lemma graph_data_add_edge [simp]: "graph_data (add_edge G u v d) = graph_data G"
  by (simp add: add_edge_def Let_def add_node_def)

lemma no_duplicate_edges_add_edge:
  "no_duplicate_edges G \<Longrightarrow> no_duplicate_edges (add_edge G u v d)"
  by (simp add: no_duplicate_edges_def map_ends_add_edge has_edge_ends)

lemma no_self_loops_ends: "no_self_loops G = (\<forall>E \<in> set (map ends (edge_list G)). card E = 2)"
  by (auto simp: no_self_loops_def list_all_iff ends_def card_insert_if)

lemma no_self_loops_add_edge:
  "no_self_loops G \<Longrightarrow> u \<noteq> v \<Longrightarrow> no_self_loops (add_edge G u v d)"
  by (simp add: no_self_loops_ends map_ends_add_edge)

lemma edges_closed_ends: "edges_closed G = (\<forall>E \<in> set (map ends (edge_list G)). E \<subseteq> set (node_list G))"
  by (auto simp: edges_closed_def list_all_iff ends_def has_node_def)

lemma edges_closed_add_edge:
  "edges_closed G \<Longrightarrow> edges_closed (add_edge G u v d)"
  by (auto simp: edges_closed_ends map_ends_add_edge)

lemma wf_graph_add_edge: "wf_graph G \<Longrightarrow> wf_graph (add_edge G u v d)"
  by (simp add: wf_graph_def edges_closed_add_edge no_duplicate_edges_add_edge)

lemma has_edge_add_edge:
  "has_edge (add_edge G u v d) a b = (has_edge G a b \<or> {a, b} = {u, v})"
  by (auto simp: has_edge_ends map_ends_add_edge)

section \<open>Sampling without replacement\<close>

lemma mset_butlast: "xs \<noteq> [] \<Longrightarrow> mset (butlast xs) = mset xs - {#last xs#}"
proof -
  assume "xs \<noteq> []"
  then have "mset xs = mset (butlast xs @ [last xs])" by simp
  then show ?thesis by simp
qed

lemma mset_pool_step:
  assumes "j < length pool"
  shows "mset (butlast (pool[j := last pool])) = mset pool - {#pool ! j#}"
proof -
  let ?q = "pool[j := last pool]"
  from assms have ne: "?q \<noteq> []" "pool \<noteq> []" by auto
  have lq: "last ?q = last pool" using ne by (simp add: last_list_update)
  have "mset ?q = add_mset (last pool) (mset pool - {#pool ! j#})"
    using assms by (simp add: mset_update)
  then show ?thesis using ne(1) lq by (simp add: mset_butlast)
qed

lemma sample_pool_mset:
  "k \<le> length pool \<Longrightarrow> mset (fst (sample_pool pool k s)) \<subseteq># mset pool"
proof (induction k arbitrary: pool s)
  case 0
  then show ?case by simp
next
  case (Suc k)
  let ?j = "fst (randbelow (length pool) s)"
  let ?s1 = "snd (randbelow (length pool) s)"
  let ?pool' = "butlast (pool[?j := last pool])"
  from Suc.prems have pos: "0 < length pool" by linarith
  then have j: "?j < length pool" by (simp add: randbelow_def next_raw_def)
  have m: "mset ?pool' = mset pool - {#pool ! ?j#}" using j by (rule mset_pool_step)
  have "k \<le> length ?pool'" using Suc.prems by simp
  then have ih: "mset (fst (sample_pool ?pool' k ?s1)) \<subseteq># mset pool - {#pool ! ?j#}"
    using Suc.IH [of ?pool' ?s1] m by simp
  have mem: "pool ! ?j \<in># mset pool" using j by simp
  have "add_mset (pool ! ?j) (mset (fst (sample_pool ?pool' k ?s1))) \<subseteq># add_mset (pool ! ?j) (mset pool - {#pool ! ?j#})"
    using ih by simp
  also have "\<dots> = mset pool" using mem by simp
  finally have sub: "add_mset (pool ! ?j) (mset (fst (sample_pool ?pool' k ?s1))) \<subseteq># mset pool" .
  have eq: "fst (sample_pool pool (Suc k) s) = pool ! ?j # fst (sample_pool ?pool' k ?s1)"
    by (simp add: case_prod_beta)
  show ?case unfolding eq using sub by simp
qed

lemma sample_pool_length:
  "k \<le> length pool \<Longrightarrow> length (fst (sample_pool pool k s)) = k"
proof (induction k arbitrary: pool s)
  case 0
  then show ?case by simp
next
  case (Suc k)
  then show ?case by (simp add: split_beta)
qed

lemma distinct_mset_sub: "mset xs \<subseteq># mset ys \<Longrightarrow> distinct ys \<Longrightarrow> distinct xs"
proof (induction xs arbitrary: ys)
  case Nil
  then show ?case by simp
next
  case (Cons x xs)
  from Cons.prems(1) have x: "x \<in># mset ys" by (simp add: insert_subset_eq_iff)
  from Cons.prems(1) have sub: "mset xs \<subseteq># mset (remove1 x ys)"
    by (simp add: insert_subset_eq_iff)
  have d: "distinct (remove1 x ys)" using Cons.prems(2) by simp
  have "distinct xs" using Cons.IH [OF sub d] .
  moreover have "set_mset (mset xs) \<subseteq> set_mset (mset (remove1 x ys))"
    using sub by (rule set_mset_mono)
  then have "set xs \<subseteq> set (remove1 x ys)" by (simp only: set_mset_mset)
  then have "set xs \<subseteq> set ys - {x}" using Cons.prems(2) by (simp only: set_remove1_eq)
  then have "x \<notin> set xs" by blast
  ultimately show ?case by simp
qed

lemma random_sample_Inr:
  assumes "random_sample population k s = Inr (xs, s')"
  shows "mset xs \<subseteq># mset population \<and> int (length xs) = k"
proof -
  from assms have k: "0 \<le> k" "k \<le> int (length population)" and xs: "xs = fst (sample_pool population (nat k) s)"
    by (auto simp: random_sample_def split: if_splits)
  from k have le: "nat k \<le> length population" by simp
  have "mset xs \<subseteq># mset population" unfolding xs using le by (rule sample_pool_mset)
  moreover have "length xs = nat k" unfolding xs using le by (rule sample_pool_length)
  ultimately show ?thesis using k by simp
qed

lemma random_sample_set:
  assumes "random_sample population k s = Inr (xs, s')"
  shows "set xs \<subseteq> set population"
proof -
  have "mset xs \<subseteq># mset population" using assms random_sample_Inr by blast
  then have "set_mset (mset xs) \<subseteq> set_mset (mset population)" by (rule set_mset_mono)
  then show ?thesis by simp
qed

lemma random_sample_distinct:
  assumes "random_sample population k s = Inr (xs, s')" "distinct population"
  shows "distinct xs"
proof -
  have "mset xs \<subseteq># mset population" using assms(1) random_sample_Inr by blast
  then show ?thesis using assms(2) by (rule distinct_mset_sub)
qed

lemma random_sample_total:
  "0 \<le> k \<Longrightarrow> k \<le> int (length population) \<Longrightarrow> \<exists>xs s'. random_sample population k s = Inr (xs, s')"
  by (simp add: random_sample_def)

section \<open>The augmentation pass\<close>

lemma link_accomplices_Nil [simp]: "link_accomplices G node [] = G"
  by (simp add: link_accomplices_def)

lemma link_accomplices_Cons:
  "link_accomplices G node (a # accs) = link_accomplices (link_step node G a) node accs"
  by (simp add: link_accomplices_def link_step_def)

lemma link_step_frame:
  "node \<in> set (node_list G) \<Longrightarrow> a \<in> set (node_list G) \<Longrightarrow>
   node_list (link_step node G a) = node_list G \<and> node_data (link_step node G a) = node_data G"
  by (simp add: link_step_def add_edge_present_node_list add_edge_present_node_data)

lemma link_step_has_edge:
  "has_edge (link_step node G a) x y = (has_edge G x y \<or> {x, y} = {node, a})"
proof (cases "has_edge G node a")
  case True
  then have "{x, y} = {node, a} \<Longrightarrow> has_edge G x y" by (simp add: has_edge_ends)
  then show ?thesis using True by (auto simp: link_step_def)
next
  case False
  then show ?thesis by (simp add: link_step_def has_edge_add_edge)
qed

lemma link_step_no_dup: "no_duplicate_edges G \<Longrightarrow> no_duplicate_edges (link_step node G a)"
  by (simp add: link_step_def no_duplicate_edges_add_edge)

lemma link_step_no_loops: "no_self_loops G \<Longrightarrow> node \<noteq> a \<Longrightarrow> no_self_loops (link_step node G a)"
  by (simp add: link_step_def no_self_loops_add_edge)

lemma link_step_length: "length (edge_list G) \<le> length (edge_list (link_step node G a))"
  by (simp add: link_step_def length_edge_list_add_edge)

lemma link_accomplices_frame:
  "node \<in> set (node_list G) \<Longrightarrow> set accs \<subseteq> set (node_list G) \<Longrightarrow>
   node_list (link_accomplices G node accs) = node_list G \<and>
   node_data (link_accomplices G node accs) = node_data G"
proof (induction accs arbitrary: G)
  case Nil
  then show ?case by simp
next
  case (Cons a accs)
  have f: "node_list (link_step node G a) = node_list G \<and> node_data (link_step node G a) = node_data G"
    using Cons.prems by (simp add: link_step_frame)
  then show ?case using Cons.IH [of "link_step node G a"] Cons.prems
    by (simp add: link_accomplices_Cons)
qed

lemma link_accomplices_has_edge:
  "has_edge (link_accomplices G node accs) x y = (has_edge G x y \<or> (\<exists>a \<in> set accs. {x, y} = {node, a}))"
  by (induction accs arbitrary: G) (auto simp: link_accomplices_Cons link_step_has_edge)

lemma link_accomplices_no_dup:
  "no_duplicate_edges G \<Longrightarrow> no_duplicate_edges (link_accomplices G node accs)"
  by (induction accs arbitrary: G) (simp_all add: link_accomplices_Cons link_step_no_dup)

lemma link_accomplices_no_loops:
  "no_self_loops G \<Longrightarrow> node \<notin> set accs \<Longrightarrow> no_self_loops (link_accomplices G node accs)"
  by (induction accs arbitrary: G) (simp_all add: link_accomplices_Cons link_step_no_loops)

lemma link_accomplices_length:
  "length (edge_list G) \<le> length (edge_list (link_accomplices G node accs))"
proof (induction accs arbitrary: G)
  case Nil
  then show ?case by simp
next
  case (Cons a accs)
  have "length (edge_list G) \<le> length (edge_list (link_step node G a))" by (rule link_step_length)
  also have "\<dots> \<le> length (edge_list (link_accomplices (link_step node G a) node accs))" by (rule Cons.IH)
  finally show ?case by (simp add: link_accomplices_Cons)
qed

lemma true_state_cong: "node_data H = node_data G \<Longrightarrow> true_state_is H = true_state_is G"
  by (simp add: true_state_is_def fun_eq_iff)

lemma fraud_not_accomplice: "true_state_is G ''Fraud'' v \<Longrightarrow> \<not> true_state_is G ''Accomplice'' v"
  by (simp add: true_state_is_def)

text \<open>One induction for every property that each linking step keeps.\<close>

lemma augment_nodes_invariant:
  assumes step: "\<And>H node accs. P H \<Longrightarrow> node_list H = node_list G \<Longrightarrow> node_data H = node_data G \<Longrightarrow>
            node \<in> set (node_list G) \<Longrightarrow> true_state_is G ''Fraud'' node \<Longrightarrow>
            set accs \<subseteq> set (filter (true_state_is G ''Accomplice'') (node_list G)) \<Longrightarrow>
            P (link_accomplices H node accs)"
  shows "augment_nodes k vs H s = Inr (G', s') \<Longrightarrow> set vs \<subseteq> set (node_list G) \<Longrightarrow>
         node_list H = node_list G \<Longrightarrow> node_data H = node_data G \<Longrightarrow> P H \<Longrightarrow>
         P G' \<and> node_list G' = node_list G \<and> node_data G' = node_data G"
proof (induction vs arbitrary: H s)
  case Nil
  then show ?case by simp
next
  case (Cons v vs)
  have ts: "true_state_is H = true_state_is G" using Cons.prems(4) by (rule true_state_cong)
  show ?case
  proof (cases "true_state_is G ''Fraud'' v")
    case False
    then have "augment_nodes k vs H s = Inr (G', s')" using Cons.prems(1) ts by simp
    then show ?thesis using Cons.IH Cons.prems by simp
  next
    case True
    let ?acc = "filter (true_state_is G ''Accomplice'') (node_list G)"
    from Cons.prems(1) True ts Cons.prems(3)
    obtain accs s1 where smp: "random_sample ?acc (min k (int (length ?acc))) s = Inr (accs, s1)"
      and rest: "augment_nodes k vs (link_accomplices H v accs) s1 = Inr (G', s')"
      by (auto simp: Let_def bindE_def split: sum.splits)
    have sub: "set accs \<subseteq> set ?acc" using smp by (rule random_sample_set)
    have v: "v \<in> set (node_list G)" using Cons.prems(2) by simp
    have P1: "P (link_accomplices H v accs)"
      using step [OF Cons.prems(5) Cons.prems(3) Cons.prems(4) v True sub] .
    have "v \<in> set (node_list H)" "set accs \<subseteq> set (node_list H)"
      using v sub Cons.prems(3) by auto
    then have fr: "node_list (link_accomplices H v accs) = node_list H \<and>
        node_data (link_accomplices H v accs) = node_data H"
      by (rule link_accomplices_frame)
    show ?thesis
      using Cons.IH [OF rest] Cons.prems(2) fr Cons.prems(3) Cons.prems(4) P1 by simp
  qed
qed

lemma add_fraud_invariant:
  assumes run: "add_fraud_accomplice_edges G k s = Inr (G', s')"
    and init: "P G"
    and step: "\<And>H node accs. P H \<Longrightarrow> true_state_is G ''Fraud'' node \<Longrightarrow>
            set accs \<subseteq> set (filter (true_state_is G ''Accomplice'') (node_list G)) \<Longrightarrow>
            P (link_accomplices H node accs)"
  shows "P G' \<and> node_list G' = node_list G \<and> node_data G' = node_data G"
proof (rule augment_nodes_invariant [where P = P and G = G and H = G and vs = "node_list G"
      and k = k and s = s and s' = s'])
  show "augment_nodes k (node_list G) G s = Inr (G', s')"
    using run by (simp add: add_fraud_accomplice_edges_def)
  show "P G" by (rule init)
  show "\<And>H node accs. P H \<Longrightarrow> node_list H = node_list G \<Longrightarrow> node_data H = node_data G \<Longrightarrow>
            node \<in> set (node_list G) \<Longrightarrow> true_state_is G ''Fraud'' node \<Longrightarrow>
            set accs \<subseteq> set (filter (true_state_is G ''Accomplice'') (node_list G)) \<Longrightarrow>
            P (link_accomplices H node accs)"
    by (rule step)
qed simp_all

lemma add_fraud_frame:
  assumes "add_fraud_accomplice_edges G k s = Inr (G', s')"
  shows "node_list G' = node_list G \<and> node_data G' = node_data G"
proof -
  have "True \<and> node_list G' = node_list G \<and> node_data G' = node_data G"
    by (rule add_fraud_invariant [where P = "\<lambda>H. True", OF assms]) simp_all
  then show ?thesis by simp
qed

lemma add_fraud_no_dup:
  assumes "add_fraud_accomplice_edges G k s = Inr (G', s')" "no_duplicate_edges G"
  shows "no_duplicate_edges G'"
proof -
  have "no_duplicate_edges G' \<and> node_list G' = node_list G \<and> node_data G' = node_data G"
    by (rule add_fraud_invariant [where P = no_duplicate_edges, OF assms])
       (rule link_accomplices_no_dup)
  then show ?thesis by simp
qed

lemma add_fraud_length:
  assumes "add_fraud_accomplice_edges G k s = Inr (G', s')"
  shows "length (edge_list G) \<le> length (edge_list G')"
proof -
  have step: "\<And>(H :: 'a graph) node accs. length (edge_list G) \<le> length (edge_list H) \<Longrightarrow>
      length (edge_list G) \<le> length (edge_list (link_accomplices H node accs))"
  proof -
    fix H :: "'a graph" and node accs
    assume "length (edge_list G) \<le> length (edge_list H)"
    then show "length (edge_list G) \<le> length (edge_list (link_accomplices H node accs))"
      using link_accomplices_length [of H node accs] by linarith
  qed
  have "length (edge_list G) \<le> length (edge_list G') \<and> node_list G' = node_list G \<and> node_data G' = node_data G"
    by (rule add_fraud_invariant [where P = "\<lambda>H. length (edge_list G) \<le> length (edge_list H)", OF assms])
       (simp, rule step)
  then show ?thesis by simp
qed

lemma add_fraud_has_edge_mono:
  assumes "add_fraud_accomplice_edges G k s = Inr (G', s')" "has_edge G x y"
  shows "has_edge G' x y"
proof -
  have "has_edge G' x y \<and> node_list G' = node_list G \<and> node_data G' = node_data G"
    by (rule add_fraud_invariant [where P = "\<lambda>H. has_edge H x y", OF assms])
       (simp add: link_accomplices_has_edge)
  then show ?thesis by simp
qed

lemma add_fraud_no_loops:
  assumes "add_fraud_accomplice_edges G k s = Inr (G', s')" "no_self_loops G"
  shows "no_self_loops G'"
proof -
  have step: "\<And>H node accs. no_self_loops H \<Longrightarrow> true_state_is G ''Fraud'' node \<Longrightarrow>
            set accs \<subseteq> set (filter (true_state_is G ''Accomplice'') (node_list G)) \<Longrightarrow>
            no_self_loops (link_accomplices H node accs)"
  proof -
    fix H :: "'a graph" and node accs
    assume h: "no_self_loops H" "true_state_is G ''Fraud'' node"
      "set accs \<subseteq> set (filter (true_state_is G ''Accomplice'') (node_list G))"
    have "\<not> true_state_is G ''Accomplice'' node" using h(2) by (rule fraud_not_accomplice)
    then have "node \<notin> set accs" using h(3) by auto
    then show "no_self_loops (link_accomplices H node accs)" using h(1) by (simp add: link_accomplices_no_loops)
  qed
  have "no_self_loops G' \<and> node_list G' = node_list G \<and> node_data G' = node_data G"
    by (rule add_fraud_invariant [where P = no_self_loops, OF assms]) (rule step)
  then show ?thesis by simp
qed

lemma length_filter_mono:
  "(\<And>x. x \<in> set xs \<Longrightarrow> P x \<Longrightarrow> Q x) \<Longrightarrow> length (filter P xs) \<le> length (filter Q xs)"
  by (induction xs) auto

lemma sampled_links:
  assumes d: "distinct (node_list H)"
    and sub: "set accs \<subseteq> set (filter (true_state_is H ''Accomplice'') (node_list H))"
    and da: "distinct accs"
    and he: "\<And>a. a \<in> set accs \<Longrightarrow> has_edge H u a"
  shows "length accs \<le> accomplice_links H u"
proof -
  let ?L = "filter (\<lambda>a. true_state_is H ''Accomplice'' a \<and> has_edge H u a) (node_list H)"
  have "set accs \<subseteq> set ?L" using sub he by auto
  then have le: "card (set accs) \<le> card (set ?L)" by (rule card_mono [OF finite_set])
  have dl: "distinct ?L" using d by (rule distinct_filter)
  have "length accs = card (set accs)" using da by (simp only: distinct_card)
  also have "\<dots> \<le> card (set ?L)" by (rule le)
  also have "\<dots> = length ?L" using dl by (rule distinct_card)
  finally show ?thesis by (simp only: accomplice_links_def)
qed

lemma accomplice_links_mono:
  assumes "node_list H' = node_list H" "node_data H' = node_data H"
    and "\<And>x y. has_edge H x y \<Longrightarrow> has_edge H' x y"
  shows "accomplice_links H u \<le> accomplice_links H' u"
  unfolding accomplice_links_def assms(1) true_state_cong [OF assms(2)]
  by (rule length_filter_mono) (simp add: assms(3))

lemma augment_nodes_has_edge_mono:
  "augment_nodes k vs H s = Inr (G', s') \<Longrightarrow> has_edge H x y \<Longrightarrow> has_edge G' x y"
proof (induction vs arbitrary: H s)
  case Nil
  then show ?case by simp
next
  case (Cons v vs)
  show ?case
  proof (cases "true_state_is H ''Fraud'' v")
    case False
    then show ?thesis using Cons by simp
  next
    case True
    let ?acc = "filter (true_state_is H ''Accomplice'') (node_list H)"
    from Cons.prems(1) True
    obtain accs s1 where rest: "augment_nodes k vs (link_accomplices H v accs) s1 = Inr (G', s')"
      by (auto simp: Let_def bindE_def split: sum.splits)
    have "has_edge (link_accomplices H v accs) x y" using Cons.prems(2) by (simp add: link_accomplices_has_edge)
    then show ?thesis using Cons.IH [OF rest] by simp
  qed
qed

lemma augment_nodes_frame:
  "augment_nodes k vs H s = Inr (G', s') \<Longrightarrow> set vs \<subseteq> set (node_list H) \<Longrightarrow>
   node_list G' = node_list H \<and> node_data G' = node_data H"
proof -
  assume a: "augment_nodes k vs H s = Inr (G', s')" "set vs \<subseteq> set (node_list H)"
  have "True \<and> node_list G' = node_list H \<and> node_data G' = node_data H"
    by (rule augment_nodes_invariant [where P = "\<lambda>H. True" and G = H and H = H, OF _ a]) simp_all
  then show ?thesis by simp
qed

lemma augment_nodes_links:
  "augment_nodes k vs H s = Inr (G', s') \<Longrightarrow> set vs \<subseteq> set (node_list H) \<Longrightarrow>
   distinct (node_list H) \<Longrightarrow> u \<in> set vs \<Longrightarrow> true_state_is H ''Fraud'' u \<Longrightarrow>
   nat (min k (int (length (filter (true_state_is H ''Accomplice'') (node_list H))))) \<le> accomplice_links G' u"
proof (induction vs arbitrary: H s)
  case Nil
  then show ?case by simp
next
  case (Cons v vs)
  let ?acc = "filter (true_state_is H ''Accomplice'') (node_list H)"
  show ?case
  proof (cases "true_state_is H ''Fraud'' v")
    case False
    then have r: "augment_nodes k vs H s = Inr (G', s')" using Cons.prems(1) by simp
    have "u \<in> set vs" using False Cons.prems(4,5) by auto
    then show ?thesis using Cons.IH [OF r] Cons.prems by simp
  next
    case True
    from Cons.prems(1) True
    obtain accs s1 where smp: "random_sample ?acc (min k (int (length ?acc))) s = Inr (accs, s1)"
      and rest: "augment_nodes k vs (link_accomplices H v accs) s1 = Inr (G', s')"
      by (auto simp: Let_def bindE_def split: sum.splits)
    let ?H1 = "link_accomplices H v accs"
    have sub: "set accs \<subseteq> set ?acc" using smp by (rule random_sample_set)
    have v: "v \<in> set (node_list H)" using Cons.prems(2) by simp
    have "set accs \<subseteq> set (node_list H)" using sub by auto
    with v have fr: "node_list ?H1 = node_list H \<and> node_data ?H1 = node_data H"
      by (rule link_accomplices_frame)
    have ts: "true_state_is ?H1 = true_state_is H" by (rule true_state_cong) (simp add: fr)
    have vs: "set vs \<subseteq> set (node_list ?H1)" using Cons.prems(2) fr by simp
    show ?thesis
    proof (cases "u = v")
      case False
      then have "u \<in> set vs" using Cons.prems(4) by simp
      then show ?thesis using Cons.IH [OF rest vs] fr ts Cons.prems(3,5) by simp
    next
      case uv: True
      have da: "distinct accs" using smp by (rule random_sample_distinct) (simp add: Cons.prems(3))
      have len: "int (length accs) = min k (int (length ?acc))" using smp random_sample_Inr by blast
      have "length accs \<le> accomplice_links ?H1 u"
      proof (rule sampled_links)
        show "distinct (node_list ?H1)" using fr Cons.prems(3) by simp
        show "set accs \<subseteq> set (filter (true_state_is ?H1 ''Accomplice'') (node_list ?H1))"
          using sub fr ts by simp
        show "distinct accs" by (rule da)
        show "\<And>a. a \<in> set accs \<Longrightarrow> has_edge ?H1 u a"
          using uv by (auto simp: link_accomplices_has_edge)
      qed
      also have "\<dots> \<le> accomplice_links G' u"
      proof (rule accomplice_links_mono)
        show "node_list G' = node_list ?H1" "node_data G' = node_data ?H1"
          using augment_nodes_frame [OF rest vs] by simp_all
        show "\<And>x y. has_edge ?H1 x y \<Longrightarrow> has_edge G' x y"
          using rest by (rule augment_nodes_has_edge_mono)
      qed
      finally show ?thesis using len by linarith
    qed
  qed
qed

section \<open>The base graph and the top-up loop\<close>

lemma ba_inv_add_edge_present:
  assumes "ba_inv n G" "a < n" "b < n" "a \<noteq> b"
  shows "ba_inv n (add_edge G a b d)"
proof -
  have "a \<in> set (node_list G)" "b \<in> set (node_list G)" using assms by (simp_all add: ba_inv_def)
  then have "node_list (add_edge G a b d) = node_list G" by (rule add_edge_present_node_list)
  then show ?thesis
    using assms by (simp add: ba_inv_def edges_closed_add_edge no_duplicate_edges_add_edge no_self_loops_add_edge)
qed

lemma ba_inv_add_edge_new:
  assumes "ba_inv n G" "t < n"
  shows "ba_inv (Suc n) (add_edge G n t d)"
proof -
  have nl: "node_list G = [0..<n]" using assms(1) by (simp add: ba_inv_def)
  have "node_list (add_node G n) = [0..<Suc n]" using nl by (simp add: add_node_def has_node_def)
  moreover have "t \<in> set (node_list (add_node G n))" using assms(2) nl by simp
  ultimately have "node_list (add_node (add_node G n) t) = [0..<Suc n]" by (simp add: add_node_present)
  then have "node_list (add_edge G n t d) = [0..<Suc n]" by (simp add: add_edge_def Let_def)
  moreover have "n \<noteq> t" using assms(2) by simp
  ultimately show ?thesis
    using assms(1) by (simp add: ba_inv_def edges_closed_add_edge no_duplicate_edges_add_edge no_self_loops_add_edge)
qed

lemma ba_inv_foldl_present:
  "ba_inv n G \<Longrightarrow> a < n \<Longrightarrow> \<forall>t \<in> set ts. t < n \<and> t \<noteq> a \<Longrightarrow>
   ba_inv n (foldl (\<lambda>H t. add_edge H a t d) G ts)"
  by (induction ts arbitrary: G) (simp_all add: ba_inv_add_edge_present)

lemma ba_inv_foldl_targets:
  assumes "ba_inv n G" "targets \<noteq> []" "\<forall>t \<in> set targets. t < n"
  shows "ba_inv (Suc n) (foldl (\<lambda>H t. add_edge H n t d) G targets)"
proof -
  obtain t ts where tt: "targets = t # ts" using assms(2) by (cases targets) auto
  have 1: "ba_inv (Suc n) (add_edge G n t d)" using assms(1,3) tt by (simp add: ba_inv_add_edge_new)
  have "\<forall>x \<in> set ts. x < Suc n \<and> x \<noteq> n" using assms(3) tt by auto
  then have "ba_inv (Suc n) (foldl (\<lambda>H t. add_edge H n t d) (add_edge G n t d) ts)"
    using 1 by (intro ba_inv_foldl_present) simp_all
  then show ?thesis by (simp add: tt)
qed

lemma random_subset_set: "set (fst (random_subset seq k s)) \<subseteq> set seq"
proof (induction k arbitrary: seq s)
  case 0
  then show ?case by simp
next
  case (Suc k)
  show ?case
  proof (cases "seq = []")
    case True
    then show ?thesis by simp
  next
    case False
    let ?j = "fst (randbelow (length seq) s)"
    have "?j < length seq" using False by (simp add: randbelow_def next_raw_def)
    then have m: "seq ! ?j \<in> set seq" by simp
    have "set (fst (random_subset (filter (\<lambda>y. y \<noteq> seq ! ?j) seq) k (snd (randbelow (length seq) s))))
        \<subseteq> set (filter (\<lambda>y. y \<noteq> seq ! ?j) seq)" by (rule Suc.IH)
    then show ?thesis using False m by (auto simp: case_prod_beta)
  qed
qed

lemma random_subset_nonempty: "seq \<noteq> [] \<Longrightarrow> fst (random_subset seq (Suc k) s) \<noteq> []"
  by (simp add: case_prod_beta)

lemma ba_grow_inv:
  "ba_inv source G \<Longrightarrow> repeated \<noteq> [] \<Longrightarrow> \<forall>x \<in> set repeated. x < source \<Longrightarrow> 0 < m \<Longrightarrow>
   ba_inv (source + todo) (fst (ba_grow m todo source G repeated s))"
proof (induction todo arbitrary: source G repeated s)
  case 0
  then show ?case by simp
next
  case (Suc todo)
  let ?targets = "fst (random_subset repeated m s)"
  let ?s1 = "snd (random_subset repeated m s)"
  let ?G1 = "foldl (\<lambda>H t. add_edge H source t Map.empty) G ?targets"
  let ?rep = "repeated @ ?targets @ replicate m source"
  obtain k where m: "m = Suc k" using Suc.prems(4) by (cases m) auto
  have ne: "?targets \<noteq> []" unfolding m using Suc.prems(2) by (rule random_subset_nonempty)
  have sub: "set ?targets \<subseteq> set repeated" by (rule random_subset_set)
  then have lt: "\<forall>t \<in> set ?targets. t < source" using Suc.prems(3) by blast
  have inv1: "ba_inv (Suc source) ?G1" using Suc.prems(1) ne lt by (rule ba_inv_foldl_targets)
  have rep1: "?rep \<noteq> []" using Suc.prems(2) by simp
  have lt1: "\<forall>x \<in> set ?rep. x < Suc source" using Suc.prems(3) lt by auto
  have "ba_inv (Suc source + todo) (fst (ba_grow m todo (Suc source) ?G1 ?rep ?s1))"
    using inv1 rep1 lt1 Suc.prems(4) by (rule Suc.IH)
  then show ?case by (simp add: case_prod_beta)
qed

lemma node_list_foldl_add_node:
  "distinct xs \<Longrightarrow> set xs \<inter> set (node_list G) = {} \<Longrightarrow>
   node_list (foldl add_node G xs) = node_list G @ xs \<and> edge_list (foldl add_node G xs) = edge_list G"
proof (induction xs arbitrary: G)
  case Nil
  then show ?case by simp
next
  case (Cons x xs)
  have 1: "node_list (add_node G x) = node_list G @ [x]" using Cons.prems(2) by (simp add: add_node_def has_node_def)
  have "set xs \<inter> set (node_list (add_node G x)) = {}" using Cons.prems by auto
  then show ?case using Cons.IH [of "add_node G x"] Cons.prems(1) 1 by simp
qed

lemma ba_inv_nodes_only: "ba_inv (Suc m) (foldl add_node empty_graph [0..<Suc m])"
proof -
  have "node_list (foldl add_node (empty_graph :: nat graph) [0..<Suc m]) = node_list (empty_graph :: nat graph) @ [0..<Suc m]
      \<and> edge_list (foldl add_node (empty_graph :: nat graph) [0..<Suc m]) = edge_list (empty_graph :: nat graph)"
    by (rule node_list_foldl_add_node) (simp_all add: empty_graph_def)
  then show ?thesis
    by (simp add: ba_inv_def empty_graph_def edges_closed_def no_duplicate_edges_def no_self_loops_def)
qed

lemma ba_inv_star_graph: "ba_inv (Suc m) (star_graph m)"
  unfolding star_graph_def
  by (rule ba_inv_foldl_present [OF ba_inv_nodes_only]) auto

lemma length_foldl_add_edge:
  "length (edge_list G) \<le> length (edge_list (foldl (\<lambda>H t. add_edge H a t d) G ts))"
proof (induction ts arbitrary: G)
  case Nil
  then show ?case by simp
next
  case (Cons t ts)
  have "length (edge_list G) \<le> length (edge_list (add_edge G a t d))"
    by (simp add: length_edge_list_add_edge)
  also have "\<dots> \<le> length (edge_list (foldl (\<lambda>H t. add_edge H a t d) (add_edge G a t d) ts))"
    by (rule Cons.IH)
  finally show ?case by simp
qed

lemma star_graph_has_edges: "0 < m \<Longrightarrow> edge_list (star_graph m) \<noteq> []"
proof -
  assume "0 < m"
  then have u: "[1..<Suc m] = 1 # [2..<Suc m]" by (simp add: upt_rec numeral_2_eq_2)
  let ?G0 = "foldl add_node (empty_graph :: nat graph) [0..<Suc m]"
  have e0: "edge_list ?G0 = []"
    using node_list_foldl_add_node [of "[0..<Suc m]" "empty_graph :: nat graph"] by (simp add: empty_graph_def)
  then have "\<not> has_edge ?G0 0 1" by (simp add: has_edge_def)
  then have "length (edge_list (add_edge ?G0 0 1 Map.empty)) = 1"
    using e0 by (simp add: length_edge_list_add_edge)
  then have "1 \<le> length (edge_list (foldl (\<lambda>H t. add_edge H 0 t Map.empty) (add_edge ?G0 0 1 Map.empty) [2..<Suc m]))"
    using length_foldl_add_edge [of "add_edge ?G0 0 1 Map.empty" 0 Map.empty "[2..<Suc m]"] by simp
  then have "1 \<le> length (edge_list (star_graph m))" unfolding star_graph_def u by simp
  then show ?thesis by auto
qed

lemma repeated_nodes_set: "set (repeated_nodes G) \<subseteq> set (node_list G)"
  by (auto simp: repeated_nodes_def)

lemma repeated_nodes_nonempty:
  assumes "edges_closed G" "edge_list G \<noteq> []"
  shows "repeated_nodes G \<noteq> []"
proof -
  obtain e es where e: "edge_list G = e # es" using assms(2) by (cases "edge_list G") auto
  have v: "fst e \<in> set (node_list G)" using assms(1) e by (simp add: edges_closed_def has_node_def)
  have "0 < degree G (fst e)" by (simp add: degree_def e)
  then have "fst e \<in> set (repeated_nodes G)" using v by (auto simp: repeated_nodes_def)
  then show ?thesis by auto
qed

lemma barabasi_albert_graph_inv:
  assumes "barabasi_albert_graph n m s = Inr (G, s')"
  shows "ba_inv (nat n) G \<and> 1 \<le> m \<and> m < n"
proof -
  from assms have m: "1 \<le> m" "m < n" by (auto simp: barabasi_albert_graph_def split: if_splits)
  let ?S = "star_graph (nat m)"
  have inv: "ba_inv (Suc (nat m)) ?S" by (rule ba_inv_star_graph)
  then have len: "length (node_list ?S) = Suc (nat m)" by (simp add: ba_inv_def)
  have cl: "edges_closed ?S" using inv by (simp add: ba_inv_def)
  have ne: "repeated_nodes ?S \<noteq> []"
    using cl by (rule repeated_nodes_nonempty) (use m in \<open>simp add: star_graph_has_edges\<close>)
  have lt: "\<forall>x \<in> set (repeated_nodes ?S). x < Suc (nat m)"
    using repeated_nodes_set [of ?S] inv by (auto simp: ba_inv_def)
  have "ba_inv (Suc (nat m) + (nat n - Suc (nat m)))
          (fst (ba_grow (nat m) (nat n - Suc (nat m)) (Suc (nat m)) ?S (repeated_nodes ?S) s))"
    using inv ne lt by (rule ba_grow_inv) (use m in simp)
  moreover have "Suc (nat m) + (nat n - Suc (nat m)) = nat n" using m by simp
  moreover have "G = fst (ba_grow (nat m) (nat n - Suc (nat m)) (Suc (nat m)) ?S (repeated_nodes ?S) s)"
    using assms m len by (simp add: barabasi_albert_graph_def Let_def)
  ultimately show ?thesis using m by simp
qed

lemma sample_two:
  assumes "random_sample nl 2 s = Inr (pair, s1)" "distinct nl"
  shows "\<exists>a b. pair = [a, b] \<and> a \<noteq> b \<and> a \<in> set nl \<and> b \<in> set nl"
proof -
  have len: "length pair = 2" using random_sample_Inr [OF assms(1)] by simp
  have d: "distinct pair" using assms by (rule random_sample_distinct)
  have sub: "set pair \<subseteq> set nl" using assms(1) by (rule random_sample_set)
  from len obtain a b where p: "pair = [a, b]"
    by (cases pair; cases "tl pair") auto
  then show ?thesis using d sub by auto
qed

lemma sample_two_total:
  "2 \<le> length nl \<Longrightarrow> \<exists>pair s1. random_sample nl 2 s = Inr (pair, s1)"
  by (rule random_sample_total) simp_all

lemma top_up_Suc_fresh:
  assumes "int (number_of_edges G) < t" "random_sample nl 2 s = Inr ([a, b], s1)"
    and "(a, b) \<notin> ex \<and> (b, a) \<notin> ex"
  shows "\<exists>w s2. top_up (Suc fuel) t nl G ex s =
           top_up fuel t nl (add_edge G a b [''weight'' \<mapsto> Num w]) (insert (a, b) ex) s2"
  using assms by (simp add: case_prod_beta) blast

lemma top_up_Suc_seen:
  assumes "int (number_of_edges G) < t" "random_sample nl 2 s = Inr ([a, b], s1)"
    and "\<not> ((a, b) \<notin> ex \<and> (b, a) \<notin> ex)"
  shows "top_up (Suc fuel) t nl G ex s = top_up fuel t nl G ex s1"
  using assms by (auto simp: case_prod_beta)

lemma top_up_inv:
  "ba_inv n G \<Longrightarrow> top_up fuel t [0..<n] G ex s = Some (Inr (G', s')) \<Longrightarrow>
   ba_inv n G' \<and> t \<le> int (number_of_edges G')"
proof (induction fuel arbitrary: G ex s)
  case 0
  then show ?case by (simp split: if_splits)
next
  case (Suc fuel)
  show ?case
  proof (cases "int (number_of_edges G) < t")
    case False
    then show ?thesis using Suc.prems by simp
  next
    case True
    from Suc.prems(2) True obtain pair s1 where smp: "random_sample [0..<n] 2 s = Inr (pair, s1)"
      by (cases "random_sample [0..<n] 2 s") auto
    from sample_two [OF smp] obtain a b where p: "pair = [a, b]" "a \<noteq> b" "a < n" "b < n"
      by auto
    have smp': "random_sample [0..<n] 2 s = Inr ([a, b], s1)" using smp p(1) by simp
    show ?thesis
    proof (cases "(a, b) \<notin> ex \<and> (b, a) \<notin> ex")
      case fresh: True
      from top_up_Suc_fresh [OF True smp' fresh, of fuel] obtain w s2 where
        eq: "top_up (Suc fuel) t [0..<n] G ex s =
             top_up fuel t [0..<n] (add_edge G a b [''weight'' \<mapsto> Num w]) (insert (a, b) ex) s2"
        by blast
      have inv: "ba_inv n (add_edge G a b [''weight'' \<mapsto> Num w])"
        using Suc.prems(1) p(3,4,2) by (rule ba_inv_add_edge_present)
      have "top_up fuel t [0..<n] (add_edge G a b [''weight'' \<mapsto> Num w]) (insert (a, b) ex) s2
              = Some (Inr (G', s'))"
        using Suc.prems(2) unfolding eq .
      then show ?thesis using Suc.IH [OF inv] by blast
    next
      case False
      have "top_up fuel t [0..<n] G ex s1 = Some (Inr (G', s'))"
        using Suc.prems(2) unfolding top_up_Suc_seen [OF True smp' False] .
      then show ?thesis using Suc.IH [OF Suc.prems(1)] by blast
    qed
  qed
qed

lemma ends_bound:
  assumes "ba_inv n G"
  shows "length (edge_list G) \<le> n choose 2"
proof -
  let ?E = "map ends (edge_list G)"
  have d: "distinct ?E" using assms by (simp add: ba_inv_def no_duplicate_edges_def)
  have c: "\<forall>E \<in> set ?E. E \<subseteq> set (node_list G)" using assms unfolding ba_inv_def edges_closed_ends by blast
  have l: "\<forall>E \<in> set ?E. card E = 2" using assms unfolding ba_inv_def no_self_loops_ends by blast
  have nl: "set (node_list G) = {0..<n}" using assms by (simp add: ba_inv_def)
  have sub: "set ?E \<subseteq> {K. K \<subseteq> {0..<n} \<and> card K = 2}" using c l nl by auto
  have fin: "finite {K. K \<subseteq> {0..<n} \<and> card K = 2}" by simp
  have "card (set ?E) = length ?E" using d by (rule distinct_card)
  then have "length (edge_list G) = card (set ?E)" by (simp only: length_map)
  also have "\<dots> \<le> card {K. K \<subseteq> {0..<n} \<and> card K = 2}" using sub fin by (rule card_mono [rotated])
  also have "\<dots> = n choose 2" by (simp add: n_subsets)
  finally show ?thesis .
qed

lemma top_up_stuck:
  "ba_inv n G \<Longrightarrow> 2 \<le> n \<Longrightarrow> int (n choose 2) < t \<Longrightarrow> top_up fuel t [0..<n] G ex s = None"
proof (induction fuel arbitrary: G ex s)
  case 0
  have "int (number_of_edges G) < t"
    using ends_bound [OF 0(1)] 0(3) by (simp add: number_of_edges_def)
  then show ?case by simp
next
  case (Suc fuel)
  have lt: "int (number_of_edges G) < t"
    using ends_bound [OF Suc.prems(1)] Suc.prems(3) by (simp add: number_of_edges_def)
  obtain pair s1 where smp: "random_sample [0..<n] 2 s = Inr (pair, s1)"
    using sample_two_total [of "[0..<n]" s] Suc.prems(2) by auto
  from sample_two [OF smp] obtain a b where p: "pair = [a, b]" "a \<noteq> b" "a < n" "b < n"
    by auto
  have smp': "random_sample [0..<n] 2 s = Inr ([a, b], s1)" using smp p(1) by simp
  show ?case
  proof (cases "(a, b) \<notin> ex \<and> (b, a) \<notin> ex")
    case fresh: True
    from top_up_Suc_fresh [OF lt smp' fresh, of fuel] obtain w s2 where
      eq: "top_up (Suc fuel) t [0..<n] G ex s =
           top_up fuel t [0..<n] (add_edge G a b [''weight'' \<mapsto> Num w]) (insert (a, b) ex) s2"
      by blast
    have inv: "ba_inv n (add_edge G a b [''weight'' \<mapsto> Num w])"
      using Suc.prems(1) p(3,4,2) by (rule ba_inv_add_edge_present)
    show ?thesis unfolding eq using inv Suc.prems(2,3) by (rule Suc.IH)
  next
    case False
    show ?thesis unfolding top_up_Suc_seen [OF lt smp' False] using Suc.prems by (rule Suc.IH)
  qed
qed






section \<open>Labelling and the whole generator\<close>

lemma bisect_right_le: "lo \<le> hi \<Longrightarrow> bisect_right a x lo hi \<le> hi"
proof (induction a x lo hi rule: bisect_right.induct)
  case (1 a x lo hi)
  show ?case
  proof (cases "lo < hi")
    case False
    then show ?thesis using "1.prems" by (subst bisect_right.simps) simp
  next
    case True
    let ?mid = "(lo + hi) div 2"
    have m: "lo \<le> ?mid" "?mid < hi" using True by simp_all
    show ?thesis
    proof (cases "x < a ! ?mid")
      case lt: True
      have "bisect_right a x lo ?mid \<le> ?mid" using "1.IH"(1) [OF True refl lt] m by simp
      then show ?thesis using True lt m by (subst bisect_right.simps) (simp add: Let_def)
    next
      case ge: False
      have "bisect_right a x (?mid + 1) hi \<le> hi" using "1.IH"(2) [OF True refl ge] m by simp
      then show ?thesis using True ge by (subst bisect_right.simps) (simp add: Let_def)
    qed
  qed
qed

lemma random_choices1_mem:
  assumes "random_choices1 population weights s = Inr (x, s1)"
  shows "x \<in> set population"
proof -
  from assms have ne: "population \<noteq> []"
    by (auto simp: random_choices1_def Let_def split: if_splits)
  let ?i = "bisect_right (accumulate weights)
              (fst (random_float s) * last (accumulate weights)) 0 (length population - 1)"
  have "?i \<le> length population - 1" by (rule bisect_right_le) simp
  then have "?i < length population" using ne by (cases population) auto
  moreover have "x = population ! ?i"
    using assms by (auto simp: random_choices1_def Let_def case_prod_beta split: if_splits)
  ultimately show ?thesis by simp
qed

lemma random_choice_mem:
  assumes "random_choice seq s = Inr (x, s1)"
  shows "x \<in> set seq"
proof -
  from assms have ne: "seq \<noteq> []" by (auto simp: random_choice_def split: if_splits)
  then have "fst (randbelow (length seq) s) < length seq" by (simp add: randbelow_def next_raw_def)
  moreover have "x = seq ! fst (randbelow (length seq) s)"
    using assms ne by (simp add: random_choice_def case_prod_beta)
  ultimately show ?thesis by simp
qed

lemma assign_node_Inr:
  assumes "assign_node sd ib v (G, c, s) = Inr (G', c', s')"
  shows "node_list G' = node_list G \<and> edge_list G' = edge_list G \<and> graph_data G' = graph_data G \<and>
         labelled ib G' v \<and> (\<forall>u. u \<noteq> v \<longrightarrow> node_data G' u = node_data G u) \<and>
         has_categories sd \<and> has_categories ib"
proof -
  from assms obtain wf wa wh ts s1 bf ba bh st s2 where
    sd: "map_of sd ''Fraud'' = Some wf" "map_of sd ''Accomplice'' = Some wa" "map_of sd ''Honest'' = Some wh"
    and ch: "random_choices1 categories [wf, wa, wh] s = Inr (ts, s1)"
    and ib: "map_of ib ''Fraud'' = Some bf" "map_of ib ''Accomplice'' = Some ba" "map_of ib ''Honest'' = Some bh"
    and st: "random_choice categories s1 = Inr (st, s2)"
    and G': "G' = set_node_attr (set_node_attr (set_node_attr (set_node_attr (set_node_attr G v
               ''true_state'' (Str ts)) v ''belief_fraud'' (Num bf)) v ''belief_accomplice'' (Num ba))
               v ''belief_honest'' (Num bh)) v ''state'' (Str st)"
    unfolding assign_node_def bindE_def getitem_def Let_def
    by (auto split: sum.splits option.splits prod.splits)
  have m1: "ts \<in> set categories" using ch by (rule random_choices1_mem)
  have m2: "st \<in> set categories" using st by (rule random_choice_mem)
  show ?thesis
    using sd ib m1 m2 unfolding G'
    by (simp add: set_node_attr_def labelled_def has_categories_def categories_def)
qed

lemma labelled_cong: "node_data G' u = node_data G u \<Longrightarrow> labelled ib G' u = labelled ib G u"
  by (simp add: labelled_def)

lemma assign_roles_Inr:
  "assign_roles sd ib vs (G, c, s) = Inr (G', c', s') \<Longrightarrow>
   node_list G' = node_list G \<and> edge_list G' = edge_list G \<and> graph_data G' = graph_data G \<and>
   (\<forall>u. u \<in> set vs \<or> labelled ib G u \<longrightarrow> labelled ib G' u) \<and>
   (vs \<noteq> [] \<longrightarrow> has_categories sd \<and> has_categories ib)"
proof (induction vs arbitrary: G c s)
  case Nil
  then show ?case by simp
next
  case (Cons v vs)
  from Cons.prems obtain G1 c1 s1 where
    a: "assign_node sd ib v (G, c, s) = Inr (G1, c1, s1)"
    and r: "assign_roles sd ib vs (G1, c1, s1) = Inr (G', c', s')"
    by (auto simp: bindE_def split: sum.splits)
  from assign_node_Inr [OF a] have
    a1: "node_list G1 = node_list G" and a2: "edge_list G1 = edge_list G"
    and a3: "graph_data G1 = graph_data G" and lv: "labelled ib G1 v"
    and a5: "\<forall>u. u \<noteq> v \<longrightarrow> node_data G1 u = node_data G u"
    and keys: "has_categories sd \<and> has_categories ib"
    by blast+
  from Cons.IH [OF r] have
    r1: "node_list G' = node_list G1" and r2: "edge_list G' = edge_list G1"
    and r3: "graph_data G' = graph_data G1"
    and r4: "\<forall>u. u \<in> set vs \<or> labelled ib G1 u \<longrightarrow> labelled ib G' u"
    by blast+
  have all: "\<forall>u. u \<in> set (v # vs) \<or> labelled ib G u \<longrightarrow> labelled ib G' u"
  proof (intro allI impI)
    fix u assume h: "u \<in> set (v # vs) \<or> labelled ib G u"
    have "u \<in> set vs \<or> labelled ib G1 u"
    proof (cases "u = v")
      case True
      then show ?thesis using lv by simp
    next
      case False
      then have "node_data G1 u = node_data G u" using a5 by blast
      then have "labelled ib G1 u = labelled ib G u" by (rule labelled_cong)
      moreover have "u \<in> set vs \<or> labelled ib G u" using h False by simp
      ultimately show ?thesis by blast
    qed
    then show "labelled ib G' u" using r4 by blast
  qed
  show ?case using all a1 a2 a3 r1 r2 r3 keys by simp
qed

lemma label_and_save_Inr:
  assumes "label_and_save n t ib sd G s = Inr (G', s')"
  shows "node_list G' = node_list G \<and> edge_list G' = edge_list G \<and>
         (\<forall>u \<in> set (node_list G). labelled ib G' u) \<and>
         (node_list G \<noteq> [] \<longrightarrow> has_categories sd \<and> has_categories ib)"
proof -
  from assms obtain G1 c1 where
    r: "assign_roles sd ib (node_list G) (G, [(''Fraud'', 0), (''Accomplice'', 0), (''Honest'', 0)], s) = Inr (G1, c1, s')"
    and G': "G' = add_metadata n t ib sd G1"
    unfolding label_and_save_def bindE_def by (auto split: sum.splits prod.splits)
  note R = assign_roles_Inr [OF r]
  have "\<And>u. node_data G' u = node_data G1 u" by (simp add: G' add_metadata_def)
  then have "\<And>u. labelled ib G' u = labelled ib G1 u" by (rule labelled_cong)
  then show ?thesis using R by (simp add: G' add_metadata_def)
qed

lemma ba_inv_cong:
  "ba_inv n G \<Longrightarrow> node_list G' = node_list G \<Longrightarrow> edge_list G' = edge_list G \<Longrightarrow> ba_inv n G'"
  by (auto simp: ba_inv_def edges_closed_def no_duplicate_edges_def no_self_loops_def has_node_def list_all_iff)

lemma barabasi_albert_graph_total:
  "1 \<le> m \<Longrightarrow> m < n \<Longrightarrow> \<exists>G s'. barabasi_albert_graph n m s = Inr (G, s')"
  by (simp add: barabasi_albert_graph_def Let_def)

lemma generate_Inr:
  assumes "generate_synthetic_network mt fuel n t ib sd s0 = Some (Inr (G, s))"
  shows "\<exists>G0 s2 G1 s3. n \<noteq> 0 \<and>
           barabasi_albert_graph n (max 1 (t div n)) (mt 42) = Inr (G0, s2) \<and>
           top_up fuel t (node_list G0) G0 (set (edges G0)) s2 = Some (Inr (G1, s3)) \<and>
           label_and_save n t (configured default_initial_belief ib)
             (configured default_state_distribution sd) G1 s3 = Inr (G, s)"
  using assms unfolding generate_synthetic_network_def random_seed_def Let_def configured_def
  by (auto split: if_splits sum.splits option.splits prod.splits)

lemma generate_shape:
  assumes "generate_synthetic_network mt fuel n t ib sd s0 = Some (Inr (G, s))"
  shows "ba_inv (nat n) G \<and> 2 \<le> n \<and> t \<le> int (number_of_edges G) \<and>
         (\<forall>u \<in> set (node_list G). labelled (configured default_initial_belief ib) G u) \<and>
         has_categories (configured default_state_distribution sd) \<and>
         has_categories (configured default_initial_belief ib)"
proof -
  from generate_Inr [OF assms] obtain G0 s2 G1 s3 where
    ba: "barabasi_albert_graph n (max 1 (t div n)) (mt 42) = Inr (G0, s2)"
    and tu: "top_up fuel t (node_list G0) G0 (set (edges G0)) s2 = Some (Inr (G1, s3))"
    and ls: "label_and_save n t (configured default_initial_belief ib)
             (configured default_state_distribution sd) G1 s3 = Inr (G, s)"
    by blast
  note B = barabasi_albert_graph_inv [OF ba]
  then have n2: "2 \<le> n" by simp
  have nl0: "node_list G0 = [0..<nat n]" using B by (simp add: ba_inv_def)
  note T = top_up_inv [OF conjunct1 [OF B] tu [unfolded nl0]]
  note L = label_and_save_Inr [OF ls]
  have nl1: "node_list G1 = [0..<nat n]" using T by (simp add: ba_inv_def)
  have ne: "node_list G1 \<noteq> []" using nl1 n2 by simp
  have "ba_inv (nat n) G1" using T by simp
  moreover have "node_list G = node_list G1" "edge_list G = edge_list G1" using L by simp_all
  ultimately have "ba_inv (nat n) G" by (rule ba_inv_cong)
  moreover have "number_of_edges G = number_of_edges G1" using L by (simp add: number_of_edges_def)
  ultimately show ?thesis using T L n2 ne by simp
qed

lemma generate_hangs:
  assumes "2 \<le> n" "t div n < n" "int (nat n choose 2) < t"
  shows "generate_synthetic_network mt fuel n t ib sd s0 = None"
proof -
  let ?m = "max 1 (t div n)"
  have m: "1 \<le> ?m" "?m < n" using assms(1,2) by simp_all
  then obtain G0 s2 where ba: "barabasi_albert_graph n ?m (mt 42) = Inr (G0, s2)"
    using barabasi_albert_graph_total by blast
  note B = barabasi_albert_graph_inv [OF ba]
  have nl0: "node_list G0 = [0..<nat n]" using B by (simp add: ba_inv_def)
  have "top_up fuel t [0..<nat n] G0 (set (edges G0)) s2 = None"
    using conjunct1 [OF B] by (rule top_up_stuck) (use assms in simp_all)
  then show ?thesis
    using ba assms(1) nl0
    by (simp add: generate_synthetic_network_def random_seed_def Let_def)
qed

















lemma seed_resets_generator:
  "generate_synthetic_network mt fuel n t ib sd s0 = generate_synthetic_network mt fuel n t ib sd s0'"
  by (simp add: generate_synthetic_network_def random_seed_def)

section \<open>The claims about the augmentation pass\<close>

lemma linked_pair_pass:
  "add_fraud_accomplice_edges linked_pair 5 s = Inr (linked_pair, snd (next_raw s))"
  by (simp add: add_fraud_accomplice_edges_def linked_pair_def true_state_is_def set_node_attr_def
      add_node_def has_node_def empty_graph_def add_edge_def Let_def has_edge_def joins_def
      random_sample_def randbelow_def next_raw_def bindE_def link_accomplices_def)

lemma returned_cases:
  "\<not> isl r \<Longrightarrow> \<exists>G' s'. r = Inr (G', s')"
  by (cases r) auto

text \<open>
  Claim C9. \<^verbatim>\<open>add_fraud_accomplice_edges\<close> changes edges only: after a pass that returns, the
  nodes are the same, in the same order, and every node has the attribute dictionary it
  had before.
\<close>

theorem augmentation_frame:
  assumes "add_fraud_accomplice_edges G max_accomplice_edges s = Inr (G', s')"
  shows "node_list G' = node_list G \<and> node_data G' = node_data G"
  using assms by (rule add_fraud_frame)

text \<open>The pass on the labelled graph of three nodes returns, and leaves its nodes as they were.\<close>

theorem augmentation_frame_witness:
  "\<exists>G' s'. add_fraud_accomplice_edges labelled_trio 5 zero_tape = Inr (G', s') \<and>
     node_list G' = node_list labelled_trio \<and> node_data G' = node_data labelled_trio"
proof -
  have "\<not> isl (add_fraud_accomplice_edges labelled_trio 5 zero_tape)" by code_simp
  then obtain G' s' where r: "add_fraud_accomplice_edges labelled_trio 5 zero_tape = Inr (G', s')"
    using returned_cases by blast
  show ?thesis using augmentation_frame [OF r] r by blast
qed

text \<open>
  Claim C6. Two passes in succession, the second starting from the graph and the
  generator state the first one left: neither pass lowers the number of edges, and a
  graph without a duplicate edge has none after either pass.
\<close>

theorem augmentation_twice:
  assumes "add_fraud_accomplice_edges G max_accomplice_edges s = Inr (G1, s1)"
    and "add_fraud_accomplice_edges G1 max_accomplice_edges s1 = Inr (G2, s2)"
    and "no_duplicate_edges G"
  shows "number_of_edges G \<le> number_of_edges G1 \<and> number_of_edges G1 \<le> number_of_edges G2 \<and>
         no_duplicate_edges G1 \<and> no_duplicate_edges G2"
proof -
  have d1: "no_duplicate_edges G1" using assms(1,3) by (rule add_fraud_no_dup)
  have d2: "no_duplicate_edges G2" using assms(2) d1 by (rule add_fraud_no_dup)
  show ?thesis
    using add_fraud_length [OF assms(1)] add_fraud_length [OF assms(2)] d1 d2
    by (simp add: number_of_edges_def)
qed

text \<open>Two passes over the labelled graph of three nodes, one accomplice sampled per pass.\<close>

theorem augmentation_twice_witness:
  "\<exists>G1 s1 G2 s2.
     add_fraud_accomplice_edges labelled_trio 1 ramp_tape = Inr (G1, s1) \<and>
     add_fraud_accomplice_edges G1 1 s1 = Inr (G2, s2) \<and>
     no_duplicate_edges labelled_trio \<and>
     number_of_edges labelled_trio \<le> number_of_edges G1 \<and> number_of_edges G1 \<le> number_of_edges G2 \<and>
     no_duplicate_edges G1 \<and> no_duplicate_edges G2"
proof -
  have "\<not> isl (add_fraud_accomplice_edges labelled_trio 1 ramp_tape)" by code_simp
  then obtain G1 s1 where r1: "add_fraud_accomplice_edges labelled_trio 1 ramp_tape = Inr (G1, s1)"
    using returned_cases by blast
  have "\<not> isl (bindE (add_fraud_accomplice_edges labelled_trio 1 ramp_tape)
            (\<lambda>p. add_fraud_accomplice_edges (fst p) 1 (snd p)))" by code_simp
  then have "\<not> isl (add_fraud_accomplice_edges G1 1 s1)" by (simp add: r1 bindE_def)
  then obtain G2 s2 where r2: "add_fraud_accomplice_edges G1 1 s1 = Inr (G2, s2)"
    using returned_cases by blast
  have d: "no_duplicate_edges labelled_trio" by code_simp
  show ?thesis using augmentation_twice [OF r1 r2 d] r1 r2 d by blast
qed

text \<open>
  Claim C5, as amended. After a pass with \<open>max_accomplice_edges = k\<close> over a well-formed
  graph, every Fraud node is linked to at least \<open>min k\<close> (number of Accomplice nodes)
  Accomplice nodes, edges that existed before the pass included, and the pass introduces
  no duplicate edge.
\<close>

theorem accomplice_links_guarantee:
  assumes "add_fraud_accomplice_edges G max_accomplice_edges s = Inr (G', s')"
    and "wf_graph G" and "u \<in> set (node_list G)" and "true_state_is G ''Fraud'' u"
  shows "nat (min max_accomplice_edges
                (int (length (filter (true_state_is G ''Accomplice'') (node_list G)))))
           \<le> accomplice_links G' u \<and> no_duplicate_edges G'"
proof -
  have run: "augment_nodes max_accomplice_edges (node_list G) G s = Inr (G', s')"
    using assms(1) by (simp add: add_fraud_accomplice_edges_def)
  have "distinct (node_list G)" "no_duplicate_edges G" using assms(2) by (simp_all add: wf_graph_def)
  then show ?thesis
    using augment_nodes_links [OF run _ _ assms(3,4)] add_fraud_no_dup [OF assms(1)] by simp
qed

text \<open>The pass over the linked pair: node 0 is linked to its one accomplice afterwards.\<close>

theorem accomplice_links_guarantee_witness:
  "\<exists>G' s'. add_fraud_accomplice_edges linked_pair 5 zero_tape = Inr (G', s') \<and>
     wf_graph linked_pair \<and> 0 \<in> set (node_list linked_pair) \<and>
     true_state_is linked_pair ''Fraud'' 0 \<and>
     nat (min 5 (int (length (filter (true_state_is linked_pair ''Accomplice'')
                                (node_list linked_pair)))))
       \<le> accomplice_links G' 0 \<and> no_duplicate_edges G'"
proof -
  have "\<not> isl (add_fraud_accomplice_edges linked_pair 5 zero_tape)" by code_simp
  then obtain G' s' where r: "add_fraud_accomplice_edges linked_pair 5 zero_tape = Inr (G', s')"
    using returned_cases by blast
  have w: "wf_graph linked_pair" by code_simp
  have n: "0 \<in> set (node_list linked_pair)" by code_simp
  have f: "true_state_is linked_pair ''Fraud'' 0" by code_simp
  show ?thesis using accomplice_links_guarantee [OF r w n f] r w n f by blast
qed

text \<open>
  Claim C5 as stated fails. In the linked pair the Fraud node 0 already has an edge to the
  only Accomplice node, which is therefore the one sampled, whatever the generator
  delivers (\<open>linked_pair_pass\<close>); the guard \<^verbatim>\<open>if not G.has_edge(node, accomplice)\<close> skips
  it, and the pass with \<open>max_accomplice_edges = 5\<close> gives node 0 no edge that did not exist
  before, while \<open>min 5 1 = 1\<close>.
\<close>

theorem fresh_links_counterexample:
  "\<not> isl (add_fraud_accomplice_edges linked_pair 5 zero_tape) \<and>
   wf_graph linked_pair \<and>
   true_state_is linked_pair ''Fraud'' 0 \<and>
   new_accomplice_links linked_pair
       (fst (projr (add_fraud_accomplice_edges linked_pair 5 zero_tape))) 0
     < nat (min 5 (int (length (filter (true_state_is linked_pair ''Accomplice'')
                                  (node_list linked_pair)))))"
  by code_simp

section \<open>The claims about the generator\<close>

text \<open>A run of the generator that returns, used as the concrete input below: three nodes,
  three edges wanted, so the loop has to add the one pair the base graph leaves out.\<close>

lemma returns_graph_cases: "returns_graph r \<Longrightarrow> \<exists>G s. r = Some (Inr (G, s))"
  by (cases r) (auto simp: returns_graph_def split: sum.splits)

lemma demo_run: "returns_graph (generate_synthetic_network demo_mt 1 3 3 None None zero_tape)"
  by code_simp

lemma augment_nodes_total:
  "0 \<le> k \<Longrightarrow> \<exists>G' s'. augment_nodes k vs G s = Inr (G', s')"
proof (induction vs arbitrary: G s)
  case Nil
  then show ?case by simp
next
  case (Cons v vs)
  show ?case
  proof (cases "true_state_is G ''Fraud'' v")
    case False
    then show ?thesis using Cons by simp
  next
    case True
    let ?acc = "filter (true_state_is G ''Accomplice'') (node_list G)"
    have "\<exists>xs s1. random_sample ?acc (min k (int (length ?acc))) s = Inr (xs, s1)"
      by (rule random_sample_total) (use Cons.prems in simp_all)
    then obtain xs s1 where smp: "random_sample ?acc (min k (int (length ?acc))) s = Inr (xs, s1)"
      by blast
    show ?thesis using True smp Cons.IH [OF Cons.prems, of "link_accomplices G v xs" s1]
      by (simp add: Let_def bindE_def)
  qed
qed

lemma add_fraud_total:
  "0 \<le> k \<Longrightarrow> \<exists>G' s'. add_fraud_accomplice_edges G k s = Inr (G', s')"
  unfolding add_fraud_accomplice_edges_def by (rule augment_nodes_total)




text \<open>
  Claim C2 fails on the code. With \<open>num_nodes = 5\<close> and \<open>target_edges = 11\<close> the attachment
  parameter is 2, the base graph is built, and the loop then asks for an eleventh edge
  among the ten pairs of five nodes: whatever the generator delivers and however much fuel
  the loop is given, the run is still looping.
\<close>

theorem top_up_hangs:
  "generate_synthetic_network mt fuel 5 11 initial_belief state_distribution s0 = None"
  by (rule generate_hangs) (simp_all add: choose_two)




text \<open>
  Claim C7. In a returned graph every node's three belief fields hold the entries of the
  configured \<open>initial_belief\<close> for Fraud, Accomplice and Honest, so their sum is the sum
  of these three entries.
\<close>

theorem beliefs_from_configuration:
  assumes "generate_synthetic_network mt fuel num_nodes target_edges initial_belief
             state_distribution s0 = Some (Inr (G, s))"
    and "v \<in> set (node_list G)"
  shows "\<exists>bf ba bh.
           getitem (configured default_initial_belief initial_belief) ''Fraud'' = Inr bf \<and>
           getitem (configured default_initial_belief initial_belief) ''Accomplice'' = Inr ba \<and>
           getitem (configured default_initial_belief initial_belief) ''Honest'' = Inr bh \<and>
           node_data G v ''belief_fraud'' = Some (Num bf) \<and>
           node_data G v ''belief_accomplice'' = Some (Num ba) \<and>
           node_data G v ''belief_honest'' = Some (Num bh) \<and>
           belief_sum G v = Some (bf + ba + bh)"
proof -
  have "labelled (configured default_initial_belief initial_belief) G v"
    using generate_shape [OF assms(1)] assms(2) by blast
  then show ?thesis by (auto simp: labelled_def getitem_def belief_sum_def)
qed

text \<open>With the default prior every field of node 0 is a third, and the sum is 1.\<close>

theorem beliefs_from_configuration_witness:
  "\<exists>G s. generate_synthetic_network demo_mt 1 3 3 None None zero_tape = Some (Inr (G, s)) \<and>
     0 \<in> set (node_list G) \<and>
     node_data G 0 ''belief_fraud'' = Some (Num (1 / 3)) \<and>
     node_data G 0 ''belief_accomplice'' = Some (Num (1 / 3)) \<and>
     node_data G 0 ''belief_honest'' = Some (Num (1 / 3)) \<and>
     belief_sum G 0 = Some 1"
proof -
  from demo_run obtain G s where
    r: "generate_synthetic_network demo_mt 1 3 3 None None zero_tape = Some (Inr (G, s))"
    using returns_graph_cases by blast
  have "node_list G = [0..<nat 3]" using generate_shape [OF r] by (simp add: ba_inv_def)
  then have v: "0 \<in> set (node_list G)" by simp
  show ?thesis
    using beliefs_from_configuration [OF r v] r v
    by (auto simp: configured_def default_initial_belief_def getitem_def)
qed

text \<open>
  Claim C8. In a returned graph every node has the five labelling attributes, and its
  \<open>true_state\<close> and \<open>state\<close> are each one of Fraud, Accomplice, Honest.
\<close>

theorem nodes_fully_labelled:
  assumes "generate_synthetic_network mt fuel num_nodes target_edges initial_belief
             state_distribution s0 = Some (Inr (G, s))"
    and "v \<in> set (node_list G)"
  shows "node_data G v ''true_state'' \<in> Some ` Str ` set categories \<and>
         node_data G v ''state'' \<in> Some ` Str ` set categories \<and>
         {''true_state'', ''state'', ''belief_fraud'', ''belief_accomplice'', ''belief_honest''}
           \<subseteq> dom (node_data G v)"
proof -
  have "labelled (configured default_initial_belief initial_belief) G v"
    using generate_shape [OF assms(1)] assms(2) by blast
  then show ?thesis by (auto simp: labelled_def)
qed

text \<open>Node 2 of the run on three nodes.\<close>

theorem nodes_fully_labelled_witness:
  "\<exists>G s. generate_synthetic_network demo_mt 1 3 3 None None zero_tape = Some (Inr (G, s)) \<and>
     2 \<in> set (node_list G) \<and>
     node_data G 2 ''true_state'' \<in> Some ` Str ` set categories \<and>
     node_data G 2 ''state'' \<in> Some ` Str ` set categories \<and>
     {''true_state'', ''state'', ''belief_fraud'', ''belief_accomplice'', ''belief_honest''}
       \<subseteq> dom (node_data G 2)"
proof -
  from demo_run obtain G s where
    r: "generate_synthetic_network demo_mt 1 3 3 None None zero_tape = Some (Inr (G, s))"
    using returns_graph_cases by blast
  have "node_list G = [0..<nat 3]" using generate_shape [OF r] by (simp add: ba_inv_def)
  then have v: "2 \<in> set (node_list G)" by simp
  show ?thesis using nodes_fully_labelled [OF r v] r v by (elim conjE) (intro exI conjI; assumption)
qed

text \<open>
  Claim C10. A returned graph of the generator has no edge from a node to itself; and the
  augmentation pass, run on a graph without such an edge, produces none.
\<close>

theorem no_self_loops_after_either_stage:
  "(generate_synthetic_network mt fuel num_nodes target_edges initial_belief state_distribution s0
      = Some (Inr (G, s)) \<longrightarrow> no_self_loops G) \<and>
   (add_fraud_accomplice_edges H max_accomplice_edges s1 = Inr (H', s1') \<and> no_self_loops H
      \<longrightarrow> no_self_loops H')"
proof (intro conjI impI)
  assume "generate_synthetic_network mt fuel num_nodes target_edges initial_belief state_distribution s0
      = Some (Inr (G, s))"
  from generate_shape [OF this] show "no_self_loops G" by (simp add: ba_inv_def)
next
  assume "add_fraud_accomplice_edges H max_accomplice_edges s1 = Inr (H', s1') \<and> no_self_loops H"
  then show "no_self_loops H'" using add_fraud_no_loops by blast
qed

text \<open>The generated graph on three nodes, then the augmentation pass over it.\<close>

theorem no_self_loops_after_either_stage_witness:
  "\<exists>G s H' s'. generate_synthetic_network demo_mt 1 3 3 None None zero_tape = Some (Inr (G, s)) \<and>
     no_self_loops G \<and> add_fraud_accomplice_edges G 5 s = Inr (H', s') \<and> no_self_loops H'"
proof -
  from demo_run obtain G s where
    r: "generate_synthetic_network demo_mt 1 3 3 None None zero_tape = Some (Inr (G, s))"
    using returns_graph_cases by blast
  obtain H' s' where a: "add_fraud_accomplice_edges G 5 s = Inr (H', s')"
    using add_fraud_total [of 5 G s] by auto
  have g: "no_self_loops G"
    using no_self_loops_after_either_stage [of demo_mt 1 3 3 None None zero_tape G s G 5 s H' s'] r
    by blast
  have "no_self_loops H'"
    using no_self_loops_after_either_stage [of demo_mt 1 3 3 None None zero_tape G s G 5 s H' s'] a g
    by blast
  then show ?thesis using r a g by blast
qed

section \<open>Further properties\<close>

text \<open>
  Property X1. With at least two nodes and an attachment parameter that the graph library
  accepts, a target above the number of pairs of nodes is never met: the run is still in
  the top-up loop when the fuel ends, for every amount of fuel and every sequence of
  random numbers.
\<close>

theorem unreachable_target_hangs:
  assumes "2 \<le> num_nodes" and "target_edges div num_nodes < num_nodes"
    and "int (nat num_nodes choose 2) < target_edges"
  shows "generate_synthetic_network mt fuel num_nodes target_edges initial_belief
           state_distribution s0 = None"
  using assms by (rule generate_hangs)

text \<open>Two nodes have one pair; three edges are wanted.\<close>

theorem unreachable_target_hangs_witness:
  "(2 :: int) \<le> 2 \<and> (3 :: int) div 2 < 2 \<and> int (nat 2 choose 2) < 3 \<and>
   generate_synthetic_network zero_mt 7 2 3 None None zero_tape = None"
  using unreachable_target_hangs [of 2 3 zero_mt 7 None None zero_tape] by simp

text \<open>
  Property X2. The augmentation pass with \<open>max_accomplice_edges \<ge> 0\<close> returns for every
  graph and every sequence of random numbers: the sample size never exceeds the number of
  Accomplice nodes, so \<^verbatim>\<open>random.sample\<close> does not raise.
\<close>

theorem augmentation_returns:
  assumes "0 \<le> max_accomplice_edges"
  shows "\<exists>G' s'. add_fraud_accomplice_edges G max_accomplice_edges s = Inr (G', s')"
  using assms by (rule add_fraud_total)

text \<open>The pass with the default of five over the labelled graph of three nodes.\<close>

theorem augmentation_returns_witness:
  "(0 :: int) \<le> 5 \<and> (\<exists>G' s'. add_fraud_accomplice_edges labelled_trio 5 ramp_tape = Inr (G', s'))"
  using augmentation_returns [of 5 labelled_trio ramp_tape] by simp

end
